theory Spec2Isabelle
  imports Main "HOL-Library.Word"
begin

unbundle bit_operations_syntax

section \<open>Opaque-ID codec (package idcodec)\<close>

text \<open>
  Go strings and byte slices are sequences of bytes: \<^typ>\<open>string\<close> (a list of 8-bit
  characters).  \<open>uint64\<close> is \<^typ>\<open>64 word\<close>, \<open>uint8\<close> is \<^typ>\<open>8 word\<close>; Go's \<open>int\<close>
  (\<open>MacLen\<close>) is \<^typ>\<open>int\<close>.  The two primitives of the Go standard library that the codec
  calls, SHA-256 and HMAC-SHA-256, are parameters of the model (\<open>sha256\<close>, \<open>hmac\<close>): nothing
  is assumed about them.
\<close>

type_synonym u64 = "64 word"

definition DefaultAlphabet :: string where
  "DefaultAlphabet = ''0123456789ABCDEFGHIJKLMNOPQRSTUVWXYZabcdefghijklmnopqrstuvwxyz''"

datatype codec_error =
    ErrInvalidLength
  | ErrVersionMismatch
  | ErrMACVerification
  | ErrInvalidBase62Char
  | ErrBadConfig

record Config =
  Secret :: string
  Version :: "8 word"
  MacLen :: int
  Alphabet :: string
  Domain_cfg :: string
  Kind :: "char option"

text \<open>The array \<open>rev [256]int8\<close> is a function from bytes to integers.\<close>

record Codec =
  version :: "8 word"
  macLen :: int
  alphabet :: string
  rev_tab :: "char \<Rightarrow> int"
  k1 :: u64
  k2 :: u64
  k3 :: u64
  k4 :: u64
  macKey :: string
  domain :: string
  kind :: "char option"

text \<open>\<open>binary.BigEndian.Uint64\<close> on an 8-byte slice.\<close>

definition BigEndian_Uint64 :: "string \<Rightarrow> u64" where
  "BigEndian_Uint64 b = foldl (\<lambda>a x. push_bit 8 a OR of_char x) 0 b"

text \<open>The closure \<open>derive\<close> of the constructor: a 32-byte array filled by \<open>copy\<close>.\<close>

definition derive :: "(string \<Rightarrow> string) \<Rightarrow> string \<Rightarrow> char \<Rightarrow> string" where
  "derive sha256 kMaster label =
     (let digest = sha256 (kMaster @ [label])
      in take 32 (digest @ replicate (32 - length digest) (CHR 0x00)))"

text \<open>
  The two loops that fill \<open>rev\<close>: every entry is \<open>-1\<close>, then the first 62 bytes of the
  alphabet are entered in increasing index order (a later index overwrites an earlier one).
\<close>

definition build_rev :: "string \<Rightarrow> char \<Rightarrow> int" where
  "build_rev alp = fold (\<lambda>i r. r(alp ! i := int i)) [0..<min (length alp) 62] (\<lambda>_. - 1)"

definition NewCodecFromSecret :: "(string \<Rightarrow> string) \<Rightarrow> Config \<Rightarrow> codec_error + Codec" where
  "NewCodecFromSecret sha256 cfg =
     (if MacLen cfg \<le> 0 then Inl ErrBadConfig
      else if Version cfg \<ge> 62 then Inl ErrBadConfig
      else
        let alp = (if Alphabet cfg = [] then DefaultAlphabet else Alphabet cfg) in
        if length alp < 62 then Inl ErrBadConfig
        else
          let kMaster = sha256 (Secret cfg);
              kRaw = derive sha256 kMaster (CHR ''K'');
              mac = derive sha256 kMaster (CHR ''M'')
          in Inr \<lparr> version = Version cfg,
                   macLen = MacLen cfg,
                   alphabet = alp,
                   rev_tab = build_rev alp,
                   k1 = BigEndian_Uint64 (take 8 kRaw),
                   k2 = BigEndian_Uint64 (take 8 (drop 8 kRaw)),
                   k3 = BigEndian_Uint64 (take 8 (drop 16 kRaw)),
                   k4 = BigEndian_Uint64 (take 8 (drop 24 kRaw)),
                   macKey = mac,
                   domain = Domain_cfg cfg,
                   kind = Kind cfg \<rparr>)"

subsection \<open>Fixed-width base 62\<close>

text \<open>
  \<open>base62EncodeFixed\<close>: the loop \<open>for i := 10; i >= 0; i--\<close> writes \<open>buf[i]\<close> and divides
  \<open>u\<close> by 62.
\<close>

fun base62Encode_loop :: "string \<Rightarrow> nat \<Rightarrow> u64 \<Rightarrow> string \<Rightarrow> string" where
  "base62Encode_loop alp 0 u buf = buf[0 := alp ! unat (u mod 62)]"
| "base62Encode_loop alp (Suc i) u buf =
     base62Encode_loop alp i (u div 62) (buf[Suc i := alp ! unat (u mod 62)])"

definition base62EncodeFixed :: "Codec \<Rightarrow> u64 \<Rightarrow> string" where
  "base62EncodeFixed c u = base62Encode_loop (alphabet c) 10 u (replicate 11 (CHR 0x00))"

text \<open>
  \<open>base62DecodeFixed\<close>: after the length check the loop reads \<open>s[0]\<close> to \<open>s[10]\<close> in
  order, that is, every byte of \<open>s\<close>; \<open>u*base + uint64(v)\<close> wraps modulo \<open>2^64\<close>.
\<close>

fun base62Decode_loop :: "(char \<Rightarrow> int) \<Rightarrow> string \<Rightarrow> u64 \<Rightarrow> codec_error + u64" where
  "base62Decode_loop r [] u = Inr u"
| "base62Decode_loop r (ch # s) u =
     (let v = r ch in
      if v < 0 then Inl ErrInvalidBase62Char
      else base62Decode_loop r s (u * 62 + word_of_int v))"

definition base62DecodeFixed :: "Codec \<Rightarrow> string \<Rightarrow> codec_error + u64" where
  "base62DecodeFixed c s =
     (if length s \<noteq> 11 then Inl ErrInvalidLength
      else base62Decode_loop (rev_tab c) s 0)"

definition toBytes8 :: "u64 \<Rightarrow> string" where
  "toBytes8 u = map (\<lambda>i. char_of (unat (drop_bit (8 * (7 - i)) u))) [0..<8]"

subsection \<open>The keyed permutation\<close>

text \<open>
  \<open>bits.RotateLeft64(x, k)\<close> is \<open>x<<s | x>>(64-s)\<close> with \<open>s = uint(k) & 63\<close>: a left
  rotation by \<open>k mod 64\<close>, so that a negative \<open>k\<close> rotates to the right.
\<close>

definition RotateLeft64 :: "u64 \<Rightarrow> int \<Rightarrow> u64" where
  "RotateLeft64 x k = word_rotl (nat (k mod 64)) x"

definition permutation :: "Codec \<Rightarrow> u64 \<Rightarrow> u64" where
  "permutation c x0 =
     (let x = x0 XOR k1 c;
          x = RotateLeft64 x 17;
          x = x + k2 c;
          x = RotateLeft64 x 31;
          x = x XOR k3 c;
          x = x + k4 c
      in x)"

definition inversePermutation :: "Codec \<Rightarrow> u64 \<Rightarrow> u64" where
  "inversePermutation c x0 =
     (let x = x0 - k4 c;
          x = x XOR k3 c;
          x = RotateLeft64 x (- 31);
          x = x - k2 c;
          x = RotateLeft64 x (- 17);
          x = x XOR k1 c
      in x)"

subsection \<open>MAC padding\<close>

text \<open>
  The inner loop \<open>for bitsIn < 6 && src < len(sum)\<close> of \<open>hmacPadding\<close> (\<open>dig\<close> is the
  HMAC output \<open>sum\<close>); it returns the new
  \<open>(bitbuf, bitsIn, src)\<close>.
\<close>

function pad_fill :: "string \<Rightarrow> u64 \<Rightarrow> nat \<Rightarrow> nat \<Rightarrow> u64 \<times> nat \<times> nat" where
  "pad_fill dig bitbuf bitsIn src =
     (if bitsIn < 6 \<and> src < length dig
      then pad_fill dig (push_bit 8 bitbuf OR of_char (dig ! src)) (bitsIn + 8) (src + 1)
      else (bitbuf, bitsIn, src))"
  by pat_completeness auto
termination
  by (relation "measure (\<lambda>(dig, bitbuf, bitsIn, src). length dig - src)") auto

text \<open>One round of the outer loop after the refill: the emitted index and the new state.\<close>

definition pad_emit :: "u64 \<Rightarrow> nat \<Rightarrow> u64 \<times> u64 \<times> nat" where
  "pad_emit bitbuf0 bitsIn0 =
     (let bitbuf = (if bitsIn0 < 6 then push_bit (6 - bitsIn0) bitbuf0 else bitbuf0);
          bitsIn = (if bitsIn0 < 6 then 6 else bitsIn0);
          shift = bitsIn - 6;
          val = drop_bit shift bitbuf AND 0x3F;
          val = (if val \<ge> 62 then val - 2 else val)
      in (val, bitbuf, bitsIn - 6))"

text \<open>The outer loop \<open>for idx < c.macLen\<close>, writing \<open>out[idx]\<close>.\<close>

function pad_loop :: "string \<Rightarrow> nat \<Rightarrow> string \<Rightarrow> string \<Rightarrow> u64 \<Rightarrow> nat \<Rightarrow> nat \<Rightarrow> nat \<Rightarrow> string" where
  "pad_loop alp n dig out bitbuf bitsIn idx src =
     (if idx < n then
        (case pad_fill dig bitbuf bitsIn src of
           (bitbuf1, bitsIn1, src1) \<Rightarrow>
             (case pad_emit bitbuf1 bitsIn1 of
                (val, bitbuf2, bitsIn2) \<Rightarrow>
                  pad_loop alp n dig (out[idx := alp ! unat val]) bitbuf2 bitsIn2 (idx + 1) src1))
      else out)"
  by pat_completeness auto
termination
  by (relation "measure (\<lambda>(alp, n, dig, out, bitbuf, bitsIn, idx, src). n - idx)") auto

definition hmacPadding :: "(string \<Rightarrow> string \<Rightarrow> string) \<Rightarrow> Codec \<Rightarrow> u64 \<Rightarrow> char option \<Rightarrow> string" where
  "hmacPadding hmac c encrypted knd =
     (let msg = domain c
                @ (case knd of None \<Rightarrow> [] | Some k \<Rightarrow> [k])
                @ [alphabet c ! unat (version c)]
                @ toBytes8 encrypted;
          dig = hmac (macKey c) msg
      in pad_loop (alphabet c) (nat (macLen c)) dig
           (replicate (nat (macLen c)) (CHR 0x00)) 0 0 0 0)"

subsection \<open>Tokens\<close>

definition token :: "(string \<Rightarrow> string \<Rightarrow> string) \<Rightarrow> Codec \<Rightarrow> u64 \<Rightarrow> char option \<Rightarrow> string" where
  "token hmac c enc knd =
     (let body = base62EncodeFixed c enc;
          pad = hmacPadding hmac c enc knd
      in [alphabet c ! unat (version c)] @ body @ pad)"

definition EncodeUint64WithKind :: "(string \<Rightarrow> string \<Rightarrow> string) \<Rightarrow> Codec \<Rightarrow> u64 \<Rightarrow> char option \<Rightarrow> string" where
  "EncodeUint64WithKind hmac c x knd = token hmac c (permutation c x) knd"

definition EncodeUint64 :: "(string \<Rightarrow> string \<Rightarrow> string) \<Rightarrow> Codec \<Rightarrow> u64 \<Rightarrow> string" where
  "EncodeUint64 hmac c x = EncodeUint64WithKind hmac c x (kind c)"

text \<open>\<open>subtle.ConstantTimeCompare\<close>: 1 when the two slices are equal, 0 otherwise.\<close>

definition ConstantTimeCompare :: "string \<Rightarrow> string \<Rightarrow> int" where
  "ConstantTimeCompare x y = (if x = y then 1 else 0)"

text \<open>
  \<open>decodeInternal\<close>.  The slices \<open>s[1:12]\<close> and \<open>s[12:]\<close> are \<open>take 11 (drop 1 s)\<close> and
  \<open>drop 12 s\<close>; \<open>int8(c.version)\<close> is the signed reading of the version byte.  The index
  \<open>s[0]\<close> is read only when \<open>len(s) = 12 + macLen\<close>, which is positive for every codec the
  constructor returns.
\<close>

definition decodeInternal ::
  "(string \<Rightarrow> string \<Rightarrow> string) \<Rightarrow> Codec \<Rightarrow> string \<Rightarrow> bool \<Rightarrow> char option \<Rightarrow> codec_error + u64" where
  "decodeInternal hmac c s needValue knd =
     (let need = 1 + 11 + macLen c in
      if int (length s) \<noteq> need then Inl ErrInvalidLength
      else
        let verCh = s ! 0 in
        if rev_tab c verCh \<noteq> sint (version c) then Inl ErrVersionMismatch
        else
          let body = take 11 (drop 1 s) in
          (case base62DecodeFixed c body of
             Inl err \<Rightarrow> Inl err
           | Inr enc \<Rightarrow>
               let pad = drop 12 s;
                   exp = hmacPadding hmac c enc knd
               in if ConstantTimeCompare pad exp \<noteq> 1 then Inl ErrMACVerification
                  else if \<not> needValue then Inr 0
                  else Inr (inversePermutation c enc)))"

definition DecodeToUint64WithKind ::
  "(string \<Rightarrow> string \<Rightarrow> string) \<Rightarrow> Codec \<Rightarrow> string \<Rightarrow> char option \<Rightarrow> codec_error + u64" where
  "DecodeToUint64WithKind hmac c s knd = decodeInternal hmac c s True knd"

definition DecodeToUint64 :: "(string \<Rightarrow> string \<Rightarrow> string) \<Rightarrow> Codec \<Rightarrow> string \<Rightarrow> codec_error + u64" where
  "DecodeToUint64 hmac c s = DecodeToUint64WithKind hmac c s (kind c)"

definition DecodeBodyOnly :: "Codec \<Rightarrow> string \<Rightarrow> codec_error + u64" where
  "DecodeBodyOnly c s =
     (if length s < 1 + 11 then Inl ErrInvalidLength
      else base62DecodeFixed c (take 11 (drop 1 s)))"

subsection \<open>Auxiliary notions for the codec proofs\<close>

declare pad_loop.simps [simp del] pad_fill.simps [simp del]

text \<open>The \<open>k\<close> base-62 digits of \<open>n\<close>, most significant first.\<close>

fun digits62 :: "nat \<Rightarrow> nat \<Rightarrow> nat list" where
  "digits62 0 n = []"
| "digits62 (Suc k) n = digits62 k (n div 62) @ [n mod 62]"

text \<open>What the constructor establishes (it is the only way to obtain a codec).\<close>

definition codec_ok :: "Codec \<Rightarrow> bool" where
  "codec_ok c \<longleftrightarrow> version c < 62 \<and> 0 < macLen c \<and> 62 \<le> length (alphabet c)
     \<and> rev_tab c = build_rev (alphabet c)"

text \<open>
  The number that the body \<open>s[1:12]\<close> of a token denotes: its bytes read through \<open>rev\<close>
  as base-62 digits, most significant first, modulo \<open>2^64\<close>.
\<close>

definition body_value :: "Codec \<Rightarrow> string \<Rightarrow> u64" where
  "body_value c s = foldl (\<lambda>u ch. u * 62 + word_of_int (rev_tab c ch)) 0 (take 11 (drop 1 s))"

text \<open>
  A configuration whose alphabet has 63 bytes and 62 distinct characters: the default
  alphabet with a second \<open>0\<close> in front.
\<close>

definition cfg_dup :: Config where
  "cfg_dup = \<lparr> Secret = [], Version = 0, MacLen = 1, Alphabet = CHR ''0'' # DefaultAlphabet,
               Domain_cfg = [], Kind = None \<rparr>"

text \<open>
  A configuration whose alphabet is the default one followed by \<open>!\<close>: 63 distinct
  characters.  The constructor accepts it; the codec it returns, for a SHA-256 that
  returns the empty string.
\<close>

definition cfg_long :: Config where
  "cfg_long = \<lparr> Secret = [], Version = 0, MacLen = 1, Alphabet = DefaultAlphabet @ ''!'',
                Domain_cfg = [], Kind = None \<rparr>"

definition codec_long :: Codec where
  "codec_long = \<lparr> version = 0, macLen = 1, alphabet = DefaultAlphabet @ ''!'',
      rev_tab = build_rev (DefaultAlphabet @ ''!''), k1 = 0, k2 = 0, k3 = 0, k4 = 0,
      macKey = replicate 32 (CHR 0x00), domain = [], kind = None \<rparr>"

text \<open>A codec over the default alphabet and a configuration with every default.\<close>

definition example_cfg :: Config where
  "example_cfg = \<lparr> Secret = ''gx-secret'', Version = 0, MacLen = 6, Alphabet = [],
                   Domain_cfg = [], Kind = None \<rparr>"

definition example_codec :: Codec where
  "example_codec = \<lparr> version = 0, macLen = 6, alphabet = DefaultAlphabet,
      rev_tab = build_rev DefaultAlphabet, k1 = 1, k2 = 2, k3 = 3, k4 = 4,
      macKey = [], domain = [], kind = None \<rparr>"


section \<open>Flow control (package gx): Throttler, Debouncer, Coalescer\<close>

text \<open>
  The mutable structs are records, and every method takes the struct and returns the
  updated struct.  What a method does to the outside world is returned as a list of events,
  in program order: taking and releasing the instance's mutex, and the calls of the user's
  callbacks with their argument.  A callback field that may be \<open>nil\<close> is a boolean (is it
  set?); what a callback does is the caller's business and is not modelled.  Durations are
  integers (nanoseconds).
\<close>

datatype StopMode = StopNoop | StopFlush | StopCallbackOnly | StopFlushAndCallback

datatype flow_error = ErrThrottlerInterval | ErrDebouncerWait | ErrCoalescerWindow

subsection \<open>Throttler\<close>

record ThrottlerOpts =
  Interval :: int
  Burst :: int
  OnStop_t :: bool

text \<open>
  The channel \<open>tokens\<close> is the number of tokens in it and its capacity; the channel \<open>stop\<close>
  is closed or not.  \<open>sync.Once\<close> has three states: nobody has entered \<open>Do\<close>, a caller is
  running the function, the function has returned.  \<open>refill_alive\<close> says whether the
  goroutine \<open>refill\<close>, started by the constructor, is still running.
\<close>

datatype once_state = OnceFresh | OnceRunning | OnceDone

record throttler =
  interval :: int
  tokens :: nat
  tokens_cap :: nat
  stop_closed :: bool
  stopOnce :: once_state
  onStop_t :: bool
  refill_alive :: bool

datatype throttler_event = OnStopCalled | StopClosed

definition NewThrottler :: "ThrottlerOpts \<Rightarrow> flow_error + throttler" where
  "NewThrottler topts =
     (if Interval topts \<le> 0 then Inl ErrThrottlerInterval
      else
        let burst = (if Burst topts < 1 then 1 else Burst topts)
        in Inr \<lparr> interval = Interval topts,
                 tokens = nat burst,
                 tokens_cap = nat burst,
                 stop_closed = False,
                 stopOnce = OnceFresh,
                 onStop_t = OnStop_t topts,
                 refill_alive = True \<rparr>)"

text \<open>
  The goroutine \<open>refill\<close>.  One round of its loop is a \<open>select\<close> over \<open>ctx.Done()\<close>, \<open>t.stop\<close>
  and the ticker's channel: the cases that are ready are listed in the order of the source,
  and Go chooses one of them pseudo-randomly, which the argument \<open>pick\<close> resolves.  With no
  case ready the goroutine waits.  On \<open>ctx.Done()\<close> and on \<open>t.stop\<close> the goroutine returns;
  on a tick it runs the inner \<open>select\<close> (\<open>refill_deposit\<close>: a token is deposited unless the
  channel is full) and goes round again.  The result tells which case was taken.
\<close>

datatype refill_case = RefillCtxDone | RefillStop | RefillTick

definition refill_ready :: "throttler \<Rightarrow> bool \<Rightarrow> bool \<Rightarrow> refill_case list" where
  "refill_ready t ctx_done tick_ready =
     (if ctx_done then [RefillCtxDone] else [])
     @ (if stop_closed t then [RefillStop] else [])
     @ (if tick_ready then [RefillTick] else [])"

definition refill_deposit :: "throttler \<Rightarrow> throttler" where
  "refill_deposit t = (if tokens t < tokens_cap t then t\<lparr>tokens := tokens t + 1\<rparr> else t)"

definition refill_round :: "throttler \<Rightarrow> bool \<Rightarrow> bool \<Rightarrow> nat \<Rightarrow> throttler \<times> refill_case option" where
  "refill_round t ctx_done tick_ready pick =
     (if \<not> refill_alive t then (t, None)
      else
        let ready = refill_ready t ctx_done tick_ready in
        if ready = [] then (t, None)
        else
          let r = ready ! (pick mod length ready)
          in if r = RefillTick then (refill_deposit t, Some RefillTick)
             else (t\<lparr>refill_alive := False\<rparr>, Some r))"

text \<open>
  \<open>Acquire\<close> is a \<open>select\<close> over three channels, resolved in the same way.  With no case
  ready the call blocks.
\<close>

datatype acquire_result = AcquireCtxErr | AcquireStopped | AcquireOk | AcquireBlocked

definition Acquire_ready :: "throttler \<Rightarrow> bool \<Rightarrow> acquire_result list" where
  "Acquire_ready t ctx_done =
     (if ctx_done then [AcquireCtxErr] else [])
     @ (if stop_closed t then [AcquireStopped] else [])
     @ (if 0 < tokens t then [AcquireOk] else [])"

definition Acquire :: "throttler \<Rightarrow> bool \<Rightarrow> nat \<Rightarrow> throttler \<times> acquire_result" where
  "Acquire t ctx_done pick =
     (let ready = Acquire_ready t ctx_done in
      if ready = [] then (t, AcquireBlocked)
      else
        let r = ready ! (pick mod length ready)
        in if r = AcquireOk then (t\<lparr>tokens := tokens t - 1\<rparr>, AcquireOk) else (t, r))"

definition TryAcquire :: "throttler \<Rightarrow> throttler \<times> bool" where
  "TryAcquire t = (if 0 < tokens t then (t\<lparr>tokens := tokens t - 1\<rparr>, True) else (t, False))"

text \<open>
  \<open>Stop\<close> runs, under \<open>stopOnce\<close>, first \<open>onStop\<close> (when set) and then \<open>close(t.stop)\<close>.
  The two statements are two steps, so that other goroutines can be interleaved between
  them.  \<open>Throttler_Stop\<close> is a whole call in a sequential history: the first call runs both
  steps and returns; a call after that returns at once; a call made while another caller
  is inside \<open>Do\<close> waits for that caller, so that in a sequential history it does not return
  (\<open>None\<close>).
\<close>

definition Stop_enter :: "throttler \<Rightarrow> throttler \<times> throttler_event list" where
  "Stop_enter t =
     (if stopOnce t = OnceFresh
      then (t\<lparr>stopOnce := OnceRunning\<rparr>, if onStop_t t then [OnStopCalled] else [])
      else (t, []))"

definition Stop_close :: "throttler \<Rightarrow> throttler \<times> throttler_event list" where
  "Stop_close t =
     (if stopOnce t = OnceRunning
      then (t\<lparr>stop_closed := True, stopOnce := OnceDone\<rparr>, [StopClosed])
      else (t, []))"

definition Throttler_Stop :: "throttler \<Rightarrow> (throttler \<times> throttler_event list) option" where
  "Throttler_Stop t =
     (case stopOnce t of
        OnceFresh \<Rightarrow>
          (case Stop_enter t of (t1, e1) \<Rightarrow> (case Stop_close t1 of (t2, e2) \<Rightarrow> Some (t2, e1 @ e2)))
      | OnceRunning \<Rightarrow> None
      | OnceDone \<Rightarrow> Some (t, []))"

text \<open>
  Concurrent use of one throttler: any interleaving of the steps of its goroutines.  A
  \<open>Stop\<close> call of the caller that finds \<open>stopOnce\<close> fresh is the steps \<open>OpStopEnter\<close> and
  \<open>OpStopClose\<close>; every \<open>Stop\<close> call returns (\<open>OpStopReturn\<close>) only when \<open>stopOnce\<close> is done,
  and before that the caller waits.  \<open>OpRefill\<close> is a round of the goroutine \<open>refill\<close>, with
  what is ready at its \<open>select\<close>.  The trace records the callbacks, the closing of \<open>stop\<close>,
  the returns of \<open>Stop\<close>, the case each round of \<open>refill\<close> took, and what each \<open>Acquire\<close> and
  \<open>TryAcquire\<close> returned.
\<close>

datatype throttler_op =
    OpStopEnter
  | OpStopClose
  | OpStopReturn
  | OpRefill bool bool nat
  | OpTryAcquire
  | OpAcquire bool nat

datatype throttler_obs =
    ObsStop throttler_event
  | ObsStopReturned
  | ObsRefill refill_case
  | ObsTryAcquire bool
  | ObsAcquire acquire_result

fun throttler_step :: "throttler \<Rightarrow> throttler_op \<Rightarrow> throttler \<times> throttler_obs list" where
  "throttler_step t OpStopEnter = (case Stop_enter t of (t', es) \<Rightarrow> (t', map ObsStop es))"
| "throttler_step t OpStopClose = (case Stop_close t of (t', es) \<Rightarrow> (t', map ObsStop es))"
| "throttler_step t OpStopReturn = (t, if stopOnce t = OnceDone then [ObsStopReturned] else [])"
| "throttler_step t (OpRefill ctx_done tick_ready pick) =
     (case refill_round t ctx_done tick_ready pick of
        (t', None) \<Rightarrow> (t', [])
      | (t', Some r) \<Rightarrow> (t', [ObsRefill r]))"
| "throttler_step t OpTryAcquire = (case TryAcquire t of (t', b) \<Rightarrow> (t', [ObsTryAcquire b]))"
| "throttler_step t (OpAcquire ctx_done pick) =
     (case Acquire t ctx_done pick of (t', r) \<Rightarrow> (t', [ObsAcquire r]))"

fun throttler_run :: "throttler \<Rightarrow> throttler_op list \<Rightarrow> throttler \<times> throttler_obs list" where
  "throttler_run t [] = (t, [])"
| "throttler_run t (op # ops) =
     (case throttler_step t op of
        (t1, o1) \<Rightarrow> (case throttler_run t1 ops of (t2, o2) \<Rightarrow> (t2, o1 @ o2)))"

text \<open>
  In a trace, has \<open>onStop\<close> been called before \<open>stop\<close> is closed and before any \<open>Acquire\<close>
  returns the stopped error?  The first argument says whether \<open>onStop\<close> has been called
  already.
\<close>

fun onStop_before_stop :: "bool \<Rightarrow> throttler_obs list \<Rightarrow> bool" where
  "onStop_before_stop seen [] = True"
| "onStop_before_stop seen (ObsStop OnStopCalled # os) = onStop_before_stop True os"
| "onStop_before_stop seen (ObsStop StopClosed # os) = (seen \<and> onStop_before_stop seen os)"
| "onStop_before_stop seen (ObsAcquire AcquireStopped # os) = (seen \<and> onStop_before_stop seen os)"
| "onStop_before_stop seen (_ # os) = onStop_before_stop seen os"


text \<open>\<open>n\<close> calls of \<open>Stop\<close>, one after the other; \<open>None\<close> if one of them does not return.\<close>

fun Stop_times :: "nat \<Rightarrow> throttler \<Rightarrow> (throttler \<times> throttler_event list) option" where
  "Stop_times 0 t = Some (t, [])"
| "Stop_times (Suc n) t =
     (case Throttler_Stop t of
        None \<Rightarrow> None
      | Some (t1, e1) \<Rightarrow>
          (case Stop_times n t1 of None \<Rightarrow> None | Some (t2, e2) \<Rightarrow> Some (t2, e1 @ e2)))"

subsection \<open>Events of Debouncer and Coalescer\<close>

text \<open>
  \<open>Emit v\<close> is a call of the trigger callback \<open>cb\<close> of a debouncer or of \<open>emit\<close> of a
  coalescer; \<open>OnStop v\<close> a call of the \<open>OnStop\<close> callback.
\<close>

datatype 'a event = Lock | Unlock | Emit 'a | OnStop 'a

text \<open>The user callbacks among the events.\<close>

fun is_callback :: "'a event \<Rightarrow> bool" where
  "is_callback (Emit v) = True"
| "is_callback (OnStop v) = True"
| "is_callback Lock = False"
| "is_callback Unlock = False"

definition callbacks :: "'a event list \<Rightarrow> 'a event list" where
  "callbacks es = filter is_callback es"

text \<open>
  Does every callback of the trace run while the mutex is free?  The first argument says
  whether the mutex is held at the start.
\<close>

fun outside_lock :: "bool \<Rightarrow> 'a event list \<Rightarrow> bool" where
  "outside_lock held [] = True"
| "outside_lock held (Lock # es) = outside_lock True es"
| "outside_lock held (Unlock # es) = outside_lock False es"
| "outside_lock held (Emit v # es) = (\<not> held \<and> outside_lock held es)"
| "outside_lock held (OnStop v # es) = (\<not> held \<and> outside_lock held es)"

text \<open>
  A \<open>*time.Timer\<close> field is \<open>None\<close> while it is \<open>nil\<close>, and otherwise says whether the timer
  is armed.  \<open>stopTimerLocked\<close> disarms a timer and leaves \<open>nil\<close> alone.
\<close>

type_synonym timer = "bool option"

definition stopTimerLocked :: "timer \<Rightarrow> timer" where
  "stopTimerLocked t = (case t of None \<Rightarrow> None | Some _ \<Rightarrow> Some False)"

subsection \<open>Debouncer\<close>

record DebounceOpts =
  Wait :: int
  Leading :: bool
  Trailing :: bool
  MaxWait :: int
  StopMode :: StopMode
  OnStop_set :: bool

record 'a debouncer =
  opts :: DebounceOpts
  timer :: timer
  maxTimer :: timer
  last_v :: 'a
  pending :: bool
  stopped :: bool
  timerLoopStarted :: bool
  maxLoopStarted :: bool

text \<open>\<open>zero\<close> is the zero value of the type parameter \<open>T\<close>, the initial \<open>last\<close>.\<close>

definition NewDebouncer :: "'a \<Rightarrow> DebounceOpts \<Rightarrow> flow_error + 'a debouncer" where
  "NewDebouncer zero o0 =
     (if Wait o0 \<le> 0 then Inl ErrDebouncerWait
      else
        let o1 = (if \<not> Leading o0 \<and> \<not> Trailing o0 then o0\<lparr>Trailing := True\<rparr> else o0)
        in Inr \<lparr> opts = o1, timer = None, maxTimer = None, last_v = zero, pending = False,
                 stopped = False, timerLoopStarted = False, maxLoopStarted = False \<rparr>)"

definition resetTimerLocked :: "'a debouncer \<Rightarrow> int \<Rightarrow> 'a debouncer" where
  "resetTimerLocked d dur =
     (if dur \<le> 0 then d
      else if timer d = None then d\<lparr>timer := Some True, timerLoopStarted := True\<rparr>
      else d\<lparr>timer := Some True\<rparr>)"

definition resetMaxLocked :: "'a debouncer \<Rightarrow> int \<Rightarrow> 'a debouncer" where
  "resetMaxLocked d dur =
     (if dur \<le> 0 then d
      else if maxTimer d = None then d\<lparr>maxTimer := Some True, maxLoopStarted := True\<rparr>
      else d\<lparr>maxTimer := Some True\<rparr>)"

definition Debouncer_Trigger :: "'a debouncer \<Rightarrow> 'a \<Rightarrow> 'a debouncer \<times> 'a event list" where
  "Debouncer_Trigger d v =
     (if stopped d then (d, [Lock, Unlock])
      else
        let first = \<not> pending d;
            d1 = d\<lparr>pending := True, last_v := v\<rparr>
        in if Leading (opts d1) \<and> first then
             let d2 = resetTimerLocked d1 (Wait (opts d1));
                 d3 = resetMaxLocked d2 (MaxWait (opts d2))
             in (d3, [Lock, Emit v, Unlock])
           else
             let d2 = resetTimerLocked d1 (Wait (opts d1));
                 d3 = (if 0 < MaxWait (opts d2) \<and> first
                       then resetMaxLocked d2 (MaxWait (opts d2)) else d2)
             in (d3, [Lock, Unlock]))"

definition Debouncer_Flush :: "'a debouncer \<Rightarrow> 'a debouncer \<times> 'a event list" where
  "Debouncer_Flush d =
     (if stopped d \<or> \<not> pending d then (d, [Lock, Unlock])
      else
        (d\<lparr>pending := False,
           timer := stopTimerLocked (timer d),
           maxTimer := stopTimerLocked (maxTimer d)\<rparr>,
         [Lock] @ (if Trailing (opts d) then [Emit (last_v d)] else []) @ [Unlock]))"

definition Debouncer_Stop :: "'a debouncer \<Rightarrow> 'a debouncer \<times> 'a event list" where
  "Debouncer_Stop d =
     (if stopped d then (d, [Lock, Unlock])
      else
        let pending0 = pending d;
            last0 = last_v d;
            shouldFlush = ((StopMode (opts d) = StopFlush \<or> StopMode (opts d) = StopFlushAndCallback)
                           \<and> pending0 \<and> Trailing (opts d));
            shouldCallback = ((StopMode (opts d) = StopCallbackOnly
                               \<or> StopMode (opts d) = StopFlushAndCallback)
                              \<and> OnStop_set (opts d))
        in (d\<lparr>stopped := True,
              timer := stopTimerLocked (timer d),
              maxTimer := stopTimerLocked (maxTimer d),
              pending := False\<rparr>,
            [Lock, Unlock]
            @ (if shouldFlush then [Emit last0] else [])
            @ (if shouldCallback then [OnStop last0] else [])))"

text \<open>
  One round of \<open>timerLoop\<close>, and of \<open>maxLoop\<close>, after a receive from the timer's channel.
\<close>

definition timerLoop_tick :: "'a debouncer \<Rightarrow> 'a debouncer \<times> 'a event list" where
  "timerLoop_tick d =
     (if stopped d then (d, [Lock, Unlock])
      else
        (d\<lparr>pending := False,
           timer := stopTimerLocked (timer d),
           maxTimer := stopTimerLocked (maxTimer d)\<rparr>,
         [Lock] @ (if Trailing (opts d) \<and> pending d then [Emit (last_v d)] else []) @ [Unlock]))"

definition maxLoop_tick :: "'a debouncer \<Rightarrow> 'a debouncer \<times> 'a event list" where
  "maxLoop_tick d =
     (if stopped d then (d, [Lock, Unlock])
      else
        (d\<lparr>pending := False,
           timer := stopTimerLocked (timer d),
           maxTimer := stopTimerLocked (maxTimer d)\<rparr>,
         [Lock] @ (if pending d \<and> Trailing (opts d) then [Emit (last_v d)] else []) @ [Unlock]))"

text \<open>A history of one debouncer: calls of its methods and timer expiries, in any order.\<close>

datatype 'a debouncer_op = DTrigger 'a | DFlush | DTimer | DMaxTimer | DStop

fun debouncer_step :: "'a debouncer \<Rightarrow> 'a debouncer_op \<Rightarrow> 'a debouncer \<times> 'a event list" where
  "debouncer_step d (DTrigger v) = Debouncer_Trigger d v"
| "debouncer_step d DFlush = Debouncer_Flush d"
| "debouncer_step d DTimer = timerLoop_tick d"
| "debouncer_step d DMaxTimer = maxLoop_tick d"
| "debouncer_step d DStop = Debouncer_Stop d"

fun debouncer_run :: "'a debouncer \<Rightarrow> 'a debouncer_op list \<Rightarrow> 'a debouncer \<times> 'a event list" where
  "debouncer_run d [] = (d, [])"
| "debouncer_run d (op # ops) =
     (case debouncer_step d op of
        (d1, e1) \<Rightarrow> (case debouncer_run d1 ops of (d2, e2) \<Rightarrow> (d2, e1 @ e2)))"

text \<open>The value of the last \<open>Trigger\<close> of a history, \<open>zero\<close> when there is none.\<close>

fun last_triggered :: "'a \<Rightarrow> 'a debouncer_op list \<Rightarrow> 'a" where
  "last_triggered zero [] = zero"
| "last_triggered zero (DTrigger v # ops) = last_triggered v ops"
| "last_triggered zero (_ # ops) = last_triggered zero ops"

subsection \<open>Coalescer\<close>

record CoalesceOpts =
  StopMode_c :: StopMode
  OnStop_c :: bool

text \<open>
  \<open>loop_alive\<close> says whether the goroutine \<open>loop\<close>, started by the \<open>Add\<close> that creates the
  timer, is still running.
\<close>

record 'a coalescer =
  window :: int
  folder :: "'a \<Rightarrow> 'a \<Rightarrow> 'a"
  timer_c :: timer
  acc :: 'a
  hasAcc :: bool
  stopped_c :: bool
  stopMode :: StopMode
  onStop :: bool
  loop_alive :: bool

text \<open>
  \<open>zero\<close> is the zero value of \<open>T\<close>; of the variadic options the first is used, and
  without any the zero \<open>CoalesceOpts\<close>.
\<close>

definition NewCoalescer ::
  "'a \<Rightarrow> int \<Rightarrow> ('a \<Rightarrow> 'a \<Rightarrow> 'a) \<Rightarrow> CoalesceOpts list \<Rightarrow> flow_error + 'a coalescer" where
  "NewCoalescer zero win f os =
     (if win \<le> 0 then Inl ErrCoalescerWindow
      else
        let co = (case os of [] \<Rightarrow> \<lparr>StopMode_c = StopNoop, OnStop_c = False\<rparr> | o0 # _ \<Rightarrow> o0)
        in Inr \<lparr> window = win, folder = f, timer_c = None, acc = zero, hasAcc = False,
                 stopped_c = False, stopMode = StopMode_c co, onStop = OnStop_c co,
                 loop_alive = False \<rparr>)"

definition Coalescer_Add :: "'a coalescer \<Rightarrow> 'a \<Rightarrow> 'a coalescer \<times> 'a event list" where
  "Coalescer_Add c v =
     (if stopped_c c then (c, [Lock, Unlock])
      else
        let c1 = (if \<not> hasAcc c then c\<lparr>acc := v, hasAcc := True\<rparr>
                  else c\<lparr>acc := folder c (acc c) v\<rparr>);
            c2 = (if timer_c c1 = None then c1\<lparr>timer_c := Some True, loop_alive := True\<rparr>
                  else c1\<lparr>timer_c := Some True\<rparr>)
        in (c2, [Lock, Unlock]))"

definition Coalescer_Flush :: "'a coalescer \<Rightarrow> 'a coalescer \<times> 'a event list" where
  "Coalescer_Flush c =
     (if stopped_c c \<or> \<not> hasAcc c then (c, [Lock, Unlock])
      else
        let acc0 = acc c
        in (c\<lparr>hasAcc := False, timer_c := stopTimerLocked (timer_c c)\<rparr>,
            [Lock, Unlock, Emit acc0, Lock, Unlock]))"

definition Coalescer_Stop :: "'a coalescer \<Rightarrow> 'a coalescer \<times> 'a event list" where
  "Coalescer_Stop c =
     (if stopped_c c then (c, [Lock, Unlock])
      else
        let hasAcc0 = hasAcc c;
            acc0 = acc c;
            shouldFlush = ((stopMode c = StopFlush \<or> stopMode c = StopFlushAndCallback) \<and> hasAcc0);
            shouldCallback = ((stopMode c = StopCallbackOnly \<or> stopMode c = StopFlushAndCallback)
                              \<and> onStop c)
        in (c\<lparr>stopped_c := True, timer_c := stopTimerLocked (timer_c c), hasAcc := False\<rparr>,
            [Lock, Unlock]
            @ (if shouldFlush then [Emit acc0] else [])
            @ (if shouldCallback then [OnStop acc0] else [])))"

text \<open>
  One round of \<open>loop\<close> after a receive from the timer's channel; without the goroutine
  nobody receives.
\<close>

definition loop_tick :: "'a coalescer \<Rightarrow> 'a coalescer \<times> 'a event list" where
  "loop_tick c =
     (if \<not> loop_alive c then (c, [])
      else if stopped_c c then (c\<lparr>loop_alive := False\<rparr>, [Lock, Unlock])
      else if hasAcc c then
        let acc0 = acc c
        in (c\<lparr>hasAcc := False, timer_c := stopTimerLocked (timer_c c)\<rparr>, [Lock, Unlock, Emit acc0])
      else (c\<lparr>timer_c := stopTimerLocked (timer_c c), loop_alive := False\<rparr>, [Lock, Unlock]))"

text \<open>Adding a list of values, one \<open>Add\<close> after the other.\<close>

fun Coalescer_Adds :: "'a coalescer \<Rightarrow> 'a list \<Rightarrow> 'a coalescer" where
  "Coalescer_Adds c [] = c"
| "Coalescer_Adds c (v # vs) = Coalescer_Adds (fst (Coalescer_Add c v)) vs"

text \<open>A history of one coalescer: calls of its methods and expiries of the window timer.\<close>

datatype 'a coalescer_op = CAdd 'a | CFlush | CTimer | CStop

fun coalescer_step :: "'a coalescer \<Rightarrow> 'a coalescer_op \<Rightarrow> 'a coalescer \<times> 'a event list" where
  "coalescer_step c (CAdd v) = Coalescer_Add c v"
| "coalescer_step c CFlush = Coalescer_Flush c"
| "coalescer_step c CTimer = loop_tick c"
| "coalescer_step c CStop = Coalescer_Stop c"

text \<open>The values given to \<open>emit\<close> in a trace.\<close>

fun emitted :: "'a event list \<Rightarrow> 'a list" where
  "emitted [] = []"
| "emitted (Emit v # es) = v # emitted es"
| "emitted (_ # es) = emitted es"


text \<open>
  A history of a coalescer, with its events.  The values of the most recent window of a
  history: those added since the last emission if an accumulator is held (first argument
  true), and otherwise those of the window that was emitted last; no value before the
  first \<open>Add\<close>.  The left fold of a window, the zero value for the empty one.
\<close>

fun coalescer_run :: "'a coalescer \<Rightarrow> 'a coalescer_op list \<Rightarrow> 'a coalescer \<times> 'a event list" where
  "coalescer_run c [] = (c, [])"
| "coalescer_run c (op # ops) =
     (case coalescer_step c op of
        (c1, e1) \<Rightarrow> (case coalescer_run c1 ops of (c2, e2) \<Rightarrow> (c2, e1 @ e2)))"

fun last_window :: "bool \<Rightarrow> 'a list \<Rightarrow> 'a coalescer \<Rightarrow> 'a coalescer_op list \<Rightarrow> 'a list" where
  "last_window opn w c [] = w"
| "last_window opn w c (op # ops) =
     (case coalescer_step c op of
        (c1, es) \<Rightarrow>
          (case op of
             CAdd v \<Rightarrow> last_window True (if opn then w @ [v] else [v]) c1 ops
           | _ \<Rightarrow> last_window (opn \<and> emitted es = []) w c1 ops))"

definition window_fold :: "'a \<Rightarrow> ('a \<Rightarrow> 'a \<Rightarrow> 'a) \<Rightarrow> 'a list \<Rightarrow> 'a" where
  "window_fold zero f w = (case w of [] \<Rightarrow> zero | v # vs \<Rightarrow> foldl f v vs)"


subsection \<open>Auxiliary notions and example instances for the flow-control proofs\<close>

text \<open>
  The invariant of the throttler's traces: once \<open>stopOnce\<close> has been entered, \<open>onStop\<close>
  (when set) has been called; and \<open>stop\<close> is closed only when \<open>stopOnce\<close> is done.
\<close>

definition stop_inv :: "throttler \<Rightarrow> bool \<Rightarrow> bool" where
  "stop_inv t seen \<longleftrightarrow> (onStop_t t \<longrightarrow> stopOnce t \<noteq> OnceFresh \<longrightarrow> seen)
     \<and> (stop_closed t \<longrightarrow> stopOnce t = OnceDone)"

text \<open>
  The throttler of the repository's test (\<open>Interval\<close> 20, \<open>Burst\<close> 2, \<open>OnStop\<close> set), a
  history of it, its state when \<open>Stop\<close> has returned, and its state once the reservoir is
  drained and \<open>refill\<close> has returned; a history that stops it, one that then drains it
  (with one tick that \<open>refill\<close> takes in a race with the stop signal), and a later one.
\<close>

definition example_throttler_opts :: ThrottlerOpts where
  "example_throttler_opts = \<lparr> Interval = 20, Burst = 2, OnStop_t = True \<rparr>"

definition example_throttler :: throttler where
  "example_throttler = \<lparr> interval = 20, tokens = 2, tokens_cap = 2, stop_closed = False,
      stopOnce = OnceFresh, onStop_t = True, refill_alive = True \<rparr>"


definition example_throttler_ops :: "throttler_op list" where
  "example_throttler_ops =
     [OpTryAcquire, OpStopEnter, OpAcquire False 0, OpStopEnter, OpStopReturn, OpStopClose,
      OpStopReturn, OpRefill False True 1, OpStopEnter, OpAcquire False 0, OpAcquire False 1,
      OpTryAcquire]"





text \<open>
  The debouncer of the test \<open>TestDebouncer_Leading_And_StopFlushAndCallback\<close> and the one of
  \<open>TestDebouncer_StopCallbackOnly_NoFlush\<close>, over strings (zero value: the empty string).
\<close>

definition example_debounce_opts :: DebounceOpts where
  "example_debounce_opts = \<lparr> Wait = 50, Leading = True, Trailing = True, MaxWait = 0,
      StopMode = StopFlushAndCallback, OnStop_set = True \<rparr>"

definition example_debouncer :: "string debouncer" where
  "example_debouncer = \<lparr> opts = example_debounce_opts, timer = None, maxTimer = None,
      last_v = [], pending = False, stopped = False, timerLoopStarted = False,
      maxLoopStarted = False \<rparr>"

definition example_callback_opts :: DebounceOpts where
  "example_callback_opts = \<lparr> Wait = 50, Leading = False, Trailing = True, MaxWait = 0,
      StopMode = StopCallbackOnly, OnStop_set = True \<rparr>"

definition example_callback_debouncer :: "string debouncer" where
  "example_callback_debouncer = \<lparr> opts = example_callback_opts, timer = None, maxTimer = None,
      last_v = [], pending = False, stopped = False, timerLoopStarted = False,
      maxLoopStarted = False \<rparr>"

text \<open>The coalescer of \<open>TestCoalescer_Window_EmitAndStopFlush\<close>: integers, summed.\<close>

definition example_coalescer :: "int coalescer" where
  "example_coalescer = \<lparr> window = 30, folder = (+), timer_c = None, acc = 0, hasAcc = False,
      stopped_c = False, stopMode = StopFlushAndCallback, onStop = True, loop_alive = False \<rparr>"


text \<open>
  The invariant behind \<open>last_window\<close>: a coalescer that is not stopped holds an accumulator
  exactly when the window is open, and the field \<open>acc\<close> is the left fold of the window.
\<close>

definition window_inv :: "'a \<Rightarrow> bool \<Rightarrow> 'a list \<Rightarrow> 'a coalescer \<Rightarrow> bool" where
  "window_inv zero opn w c \<longleftrightarrow>
     \<not> stopped_c c \<and> hasAcc c = opn \<and> acc c = window_fold zero (folder c) w \<and> (opn \<longrightarrow> w \<noteq> [])"


section \<open>ID adapters (package gx): \<open>ID.UnmarshalJSON\<close>\<close>

text \<open>
  \<open>ID\<close> is a \<open>uint64\<close>; the process-global \<open>defaultCodec\<close> is an optional codec (\<open>None\<close>
  while the pointer is \<open>nil\<close>).  The errors of \<open>UnmarshalJSON\<close>: the one of \<open>getCodec\<close>, the
  wrapped decoding error, and the final one.
\<close>

datatype id_error = ErrDefaultCodecNil | ErrInvalidEncodedID codec_error | ErrNotStringOrNumber

definition getCodec :: "Codec option \<Rightarrow> id_error + Codec" where
  "getCodec defaultCodec =
     (case defaultCodec of None \<Rightarrow> Inl ErrDefaultCodecNil | Some c \<Rightarrow> Inr c)"

subsection \<open>What \<open>encoding/json\<close> does for the two targets\<close>

text \<open>
  The shape of a JSON text.  A number keeps its literal; of arrays and objects only the
  shape matters here.  The JSON parser of the Go library is a parameter \<open>parse\<close> (\<open>None\<close>
  for a text that is not valid JSON), and so is \<open>strings.TrimSpace\<close>.
\<close>

datatype json_value = JNull | JBool bool | JNumber string | JString string | JArray | JObject

definition is_digit :: "char \<Rightarrow> bool" where
  "is_digit ch \<longleftrightarrow> 0x30 \<le> (of_char ch :: nat) \<and> (of_char ch :: nat) \<le> 0x39"

definition decimal_value :: "string \<Rightarrow> nat" where
  "decimal_value ds = foldl (\<lambda>a ch. a * 10 + (of_char ch - 0x30)) 0 ds"

text \<open>
  \<open>strconv.ParseUint(lit, 10, 64)\<close>, which \<open>json.Unmarshal\<close> applies to the literal of a
  number when the target is a \<open>uint64\<close>: decimal digits only, and a value below \<open>2^64\<close>.
\<close>

definition ParseUint :: "string \<Rightarrow> u64 option" where
  "ParseUint lit =
     (if lit \<noteq> [] \<and> list_all is_digit lit \<and> decimal_value lit < 2 ^ 64
      then Some (of_nat (decimal_value lit)) else None)"

text \<open>
  \<open>json.Unmarshal(b, &s)\<close> for a string \<open>s\<close> that is empty before the call, and
  \<open>json.Unmarshal(b, &n)\<close> for a \<open>uint64\<close> that is zero before the call: \<open>None\<close> when an error
  is returned, otherwise the value of the target afterwards.  JSON \<open>null\<close> leaves the target
  as it is and is no error; a value of another shape than the target's is an error.
\<close>

definition json_Unmarshal_string :: "(string \<Rightarrow> json_value option) \<Rightarrow> string \<Rightarrow> string option" where
  "json_Unmarshal_string parse b =
     (case parse b of
        Some JNull \<Rightarrow> Some []
      | Some (JString s) \<Rightarrow> Some s
      | _ \<Rightarrow> None)"

definition json_Unmarshal_uint :: "(string \<Rightarrow> json_value option) \<Rightarrow> string \<Rightarrow> u64 option" where
  "json_Unmarshal_uint parse b =
     (case parse b of
        Some JNull \<Rightarrow> Some 0
      | Some (JNumber lit) \<Rightarrow> ParseUint lit
      | _ \<Rightarrow> None)"

subsection \<open>\<open>UnmarshalJSON\<close>\<close>

text \<open>The result is \<open>Inr u\<close> when the method stores \<open>u\<close> in \<open>*i\<close> and returns \<open>nil\<close>.\<close>

definition ID_UnmarshalJSON ::
  "(string \<Rightarrow> json_value option) \<Rightarrow> (string \<Rightarrow> string) \<Rightarrow> (string \<Rightarrow> string \<Rightarrow> string)
   \<Rightarrow> Codec option \<Rightarrow> string \<Rightarrow> id_error + u64" where
  "ID_UnmarshalJSON parse trimSpace hmac defaultCodec b =
     (if b = ''null'' then Inr 0
      else
        (case json_Unmarshal_string parse b of
           Some s0 \<Rightarrow>
             (let s = trimSpace s0 in
              if s = [] then Inr 0
              else
                (case getCodec defaultCodec of
                   Inl err \<Rightarrow> Inl err
                 | Inr c \<Rightarrow>
                     (case DecodeToUint64 hmac c s of
                        Inl err \<Rightarrow> Inl (ErrInvalidEncodedID err)
                      | Inr u \<Rightarrow> Inr u)))
         | None \<Rightarrow>
             (case json_Unmarshal_uint parse b of
                Some n \<Rightarrow> Inr n
              | None \<Rightarrow> Inl ErrNotStringOrNumber)))"

subsection \<open>The library functions on plain inputs\<close>

text \<open>
  For examples: \<open>strings.TrimSpace\<close> on ASCII strings, and the JSON parser on the texts
  that are, between optional JSON whitespace, \<open>null\<close>, \<open>true\<close>, \<open>false\<close>, a string literal of
  printable ASCII characters without escapes, or an integer literal.  Texts outside this
  fragment (answered \<open>None\<close> below) are not used.
\<close>

definition is_space :: "char \<Rightarrow> bool" where
  "is_space ch \<longleftrightarrow> ch \<in> {CHR 0x09, CHR 0x0A, CHR 0x0B, CHR 0x0C, CHR 0x0D, CHR '' ''}"

definition TrimSpace_ascii :: "string \<Rightarrow> string" where
  "TrimSpace_ascii s = rev (dropWhile is_space (rev (dropWhile is_space s)))"

definition is_json_space :: "char \<Rightarrow> bool" where
  "is_json_space ch \<longleftrightarrow> ch \<in> {CHR 0x09, CHR 0x0A, CHR 0x0D, CHR '' ''}"

definition json_trim :: "string \<Rightarrow> string" where
  "json_trim b = rev (dropWhile is_json_space (rev (dropWhile is_json_space b)))"

definition plain_char :: "char \<Rightarrow> bool" where
  "plain_char ch \<longleftrightarrow> 0x20 \<le> (of_char ch :: nat) \<and> (of_char ch :: nat) < 0x7F
     \<and> ch \<noteq> CHR 0x22 \<and> ch \<noteq> CHR 0x5C"

definition is_int_literal :: "string \<Rightarrow> bool" where
  "is_int_literal t \<longleftrightarrow>
     (let ds = (case t of [] \<Rightarrow> [] | ch # r \<Rightarrow> if ch = CHR ''-'' then r else t)
      in ds \<noteq> [] \<and> list_all is_digit ds \<and> (hd ds \<noteq> CHR ''0'' \<or> length ds = 1))"

definition json_parse_plain :: "string \<Rightarrow> json_value option" where
  "json_parse_plain b =
     (let t = json_trim b in
      if t = ''null'' then Some JNull
      else if t = ''true'' then Some (JBool True)
      else if t = ''false'' then Some (JBool False)
      else if is_int_literal t then Some (JNumber t)
      else
        (case t of
           [] \<Rightarrow> None
         | q # r \<Rightarrow>
             if q = CHR 0x22 \<and> r \<noteq> [] \<and> last r = CHR 0x22 \<and> list_all plain_char (butlast r)
             then Some (JString (butlast r)) else None))"
section \<open>Codec: properties\<close>

lemma RotateLeft64_neg31: "RotateLeft64 (RotateLeft64 x 31) (- 31) = x"
proof -
  have "word_rotl 33 = (word_rotr 31 :: u64 \<Rightarrow> u64)"
    by (subst word_rotl_eq_word_rotr) simp
  then show ?thesis by (simp add: RotateLeft64_def)
qed

lemma RotateLeft64_neg17: "RotateLeft64 (RotateLeft64 x 17) (- 17) = x"
proof -
  have "word_rotl 47 = (word_rotr 17 :: u64 \<Rightarrow> u64)"
    by (subst word_rotl_eq_word_rotr) simp
  then show ?thesis by (simp add: RotateLeft64_def)
qed

lemma xor_cancel_right: "(a XOR b) XOR b = (a::u64)"
  by (simp add: xor.assoc)

lemma inversePermutation_permutation: "inversePermutation c (permutation c x) = x"
  by (simp add: inversePermutation_def permutation_def Let_def xor_cancel_right
      RotateLeft64_neg31 RotateLeft64_neg17)

lemma permutation_inversePermutation: "permutation c (inversePermutation c x) = x"
proof -
  have a: "RotateLeft64 (RotateLeft64 y (- 31)) 31 = y" for y
  proof -
    have "word_rotl 33 = (word_rotr 31 :: u64 \<Rightarrow> u64)"
      by (subst word_rotl_eq_word_rotr) simp
    then show ?thesis by (simp add: RotateLeft64_def)
  qed
  have b: "RotateLeft64 (RotateLeft64 y (- 17)) 17 = y" for y
  proof -
    have "word_rotl 47 = (word_rotr 17 :: u64 \<Rightarrow> u64)"
      by (subst word_rotl_eq_word_rotr) simp
    then show ?thesis by (simp add: RotateLeft64_def)
  qed
  show ?thesis
    by (simp add: inversePermutation_def permutation_def Let_def xor_cancel_right a b)
qed

lemma length_digits62 [simp]: "length (digits62 k n) = k"
  by (induction k arbitrary: n) auto

lemma digits62_lt: "d \<in> set (digits62 k n) \<Longrightarrow> d < 62"
  by (induction k arbitrary: n) auto

lemma unat_div62: "unat ((u::u64) div 62) = unat u div 62"
  by (simp add: unat_div)

lemma unat_mod62: "unat ((u::u64) mod 62) = unat u mod 62"
  by (simp add: unat_mod)

lemma base62Encode_loop_digits:
  "i < length buf \<Longrightarrow>
   base62Encode_loop alp i u buf = map ((!) alp) (digits62 (Suc i) (unat u)) @ drop (Suc i) buf"
proof (induction i arbitrary: u buf)
  case 0
  then show ?case
    by (cases buf) (simp_all add: unat_mod62)
next
  case (Suc i)
  have "drop (Suc i) (buf[Suc i := x]) = x # drop (Suc (Suc i)) buf" for x
    using Suc.prems by (simp add: upd_conv_take_nth_drop)
  with Suc show ?case
    by (simp add: unat_div62 unat_mod62)
qed

lemma base62EncodeFixed_digits:
  "base62EncodeFixed c u = map ((!) (alphabet c)) (digits62 11 (unat u))"
  by (simp add: base62EncodeFixed_def base62Encode_loop_digits del: digits62.simps)

lemma foldl_digits62:
  "foldl (\<lambda>a d. a * 62 + d) 0 (digits62 k n) = n mod 62 ^ k"
proof (induction k arbitrary: n)
  case 0
  then show ?case by simp
next
  case (Suc k)
  have "n mod (62 * 62 ^ k) = 62 * (n div 62 mod 62 ^ k) + n mod 62"
    by (rule mod_mult2_eq)
  with Suc show ?case by (simp add: mult.commute)
qed

lemma base62Decode_loop_digits:
  assumes "\<And>d. d \<in> set ds \<Longrightarrow> r (alp ! d) = int d"
  shows "base62Decode_loop r (map ((!) alp) ds) u
         = Inr (foldl (\<lambda>a d. a * 62 + of_nat d) u ds)"
  using assms by (induction ds arbitrary: u) (simp_all add: Let_def)

lemma foldl_of_nat_62:
  "foldl (\<lambda>a d. a * 62 + of_nat d) (of_nat a0 :: u64) ds
   = of_nat (foldl (\<lambda>a d. a * 62 + d) a0 ds)"
proof (induction ds arbitrary: a0)
  case Nil
  then show ?case by simp
next
  case (Cons d ds)
  have "(of_nat a0 :: u64) * 62 + of_nat d = of_nat (a0 * 62 + d)" by simp
  then show ?case using Cons [of "a0 * 62 + d"] by (simp del: of_nat_add of_nat_mult)
qed

lemma base62_value_roundtrip:
  "foldl (\<lambda>a d. a * 62 + of_nat d) (0 :: u64) (digits62 11 (unat u)) = u"
proof -
  have "unat u < 2 ^ 64" using unsigned_less [of u] by simp
  moreover have "(2::nat) ^ 64 < 62 ^ 11" by simp
  ultimately have "unat u mod 62 ^ 11 = unat u" by simp
  then show ?thesis
    using foldl_of_nat_62 [of 0 "digits62 11 (unat u)"]
    by (simp add: foldl_digits62 del: digits62.simps)
qed

lemma rev_fold_notin:
  assumes "\<And>i r. f i r = r(alp ! i := int i)"
  shows "ch \<notin> (!) alp ` {..<n} \<Longrightarrow> fold f [0..<n] r0 ch = r0 ch"
  by (induction n) (auto simp: lessThan_Suc assms)

lemma rev_fold_in:
  assumes f: "\<And>i r. f i r = r(alp ! i := int i)"
  shows "ch \<in> (!) alp ` {..<n} \<Longrightarrow> \<exists>i<n. alp ! i = ch \<and> fold f [0..<n] r0 ch = int i"
proof (induction n)
  case 0
  then show ?case by simp
next
  case (Suc n)
  have step: "fold f [0..<Suc n] r0 ch = (if ch = alp ! n then int n else fold f [0..<n] r0 ch)"
    by (simp add: f)
  show ?case
  proof (cases "alp ! n = ch")
    case True
    with step show ?thesis by auto
  next
    case False
    with Suc.prems have "ch \<in> (!) alp ` {..<n}" by (auto simp: lessThan_Suc)
    from Suc.IH [OF this] obtain i where i: "i < n" "alp ! i = ch" "fold f [0..<n] r0 ch = int i"
      by blast
    from False step i(3) have "fold f [0..<Suc n] r0 ch = int i" by auto
    with i show ?thesis using less_Suc_eq by blast
  qed
qed

lemma rev_fold_distinct:
  assumes f: "\<And>i r. f i r = r(alp ! i := int i)"
    and d: "distinct (take n alp)" and n: "n \<le> length alp" and i: "i < n"
  shows "fold f [0..<n] r0 (alp ! i) = int i"
proof -
  have "alp ! i \<in> (!) alp ` {..<n}" using i by blast
  from rev_fold_in [of f alp, OF f this, of r0] obtain j where j: "j < n" "alp ! j = alp ! i"
    "fold f [0..<n] r0 (alp ! i) = int j" by blast
  have len: "length (take n alp) = n" using n by simp
  have "take n alp ! j = take n alp ! i" using j i by simp
  then have "j = i"
    using nth_eq_iff_index_eq [OF d, of j i] i j len by simp
  with j show ?thesis by simp
qed

lemma set_take_conv_nth: "n \<le> length xs \<Longrightarrow> set (take n xs) = (!) xs ` {..<n}"
proof -
  assume n: "n \<le> length xs"
  have "set (take n xs) = {take n xs ! i | i. i < length (take n xs)}"
    by (rule set_conv_nth)
  also have "\<dots> = {xs ! i | i. i < n}"
  proof -
    have "length (take n xs) = n" using n by simp
    moreover have "\<And>i. i < n \<Longrightarrow> take n xs ! i = xs ! i" by simp
    ultimately show ?thesis by (metis (no_types, lifting))
  qed
  also have "\<dots> = (!) xs ` {..<n}" by auto
  finally show ?thesis .
qed

lemma build_rev_distinct:
  "distinct (take 62 alp) \<Longrightarrow> 62 \<le> length alp \<Longrightarrow> i < 62 \<Longrightarrow> build_rev alp (alp ! i) = int i"
proof -
  assume d: "distinct (take 62 alp)" and n: "62 \<le> length alp" and i: "i < 62"
  have m: "min (length alp) 62 = 62" using n by simp
  from rev_fold_distinct [of "\<lambda>i r. r(alp ! i := int i)" alp 62 i "\<lambda>_. - 1", OF refl d n i]
  show ?thesis by (simp add: build_rev_def m)
qed

lemma build_rev_neg_iff:
  assumes "62 \<le> length alp"
  shows "build_rev alp ch < 0 \<longleftrightarrow> ch \<notin> set (take 62 alp)"
proof -
  let ?f = "\<lambda>i r. r(alp ! i := int i)"
  have m: "min (length alp) 62 = 62" using assms by simp
  show ?thesis
  proof (cases "ch \<in> (!) alp ` {..<62}")
    case True
    from rev_fold_in [of ?f alp ch 62 "\<lambda>_. - 1", OF refl True]
    obtain i where "fold ?f [0..<62] (\<lambda>_. - 1) ch = int i" by blast
    then have "build_rev alp ch \<ge> 0" by (simp add: build_rev_def m)
    with True show ?thesis using set_take_conv_nth [OF assms] by simp
  next
    case False
    from rev_fold_notin [of ?f alp ch 62 "\<lambda>_. - 1", OF refl False]
    have "build_rev alp ch = - 1" by (simp add: build_rev_def m)
    with False show ?thesis using set_take_conv_nth [OF assms] by simp
  qed
qed

lemma length_pad_loop: "length (pad_loop alp n dig out bitbuf bitsIn idx src) = length out"
proof (induction alp n dig out bitbuf bitsIn idx src rule: pad_loop.induct)
  case (1 alp n dig out bitbuf bitsIn idx src)
  show ?case
  proof (cases "idx < n")
    case True
    obtain b1 i1 s1 where f: "pad_fill dig bitbuf bitsIn src = (b1, i1, s1)"
      by (cases "pad_fill dig bitbuf bitsIn src") auto
    obtain v b2 i2 where e: "pad_emit b1 i1 = (v, b2, i2)"
      by (cases "pad_emit b1 i1") auto
    from "1.IH" [OF True f [symmetric] refl e [symmetric] refl] True f e
    show ?thesis by (subst pad_loop.simps) simp
  next
    case False
    then show ?thesis by (subst pad_loop.simps) simp
  qed
qed

lemma length_hmacPadding: "length (hmacPadding hmac c enc knd) = nat (macLen c)"
  by (simp add: hmacPadding_def Let_def length_pad_loop)

lemma NewCodecFromSecret_ok: "NewCodecFromSecret sha256 cfg = Inr c \<Longrightarrow> codec_ok c"
  by (auto simp: NewCodecFromSecret_def codec_ok_def Let_def not_le split: if_splits)

lemma uint_version: "(v :: 8 word) < 62 \<Longrightarrow> uint v < 62"
  by (simp add: word_less_def)

lemma unat_version: "(v :: 8 word) < 62 \<Longrightarrow> unat v < 62"
proof -
  assume "v < 62"
  then have "unat v < unat (62 :: 8 word)" by (rule unat_mono)
  then show ?thesis by simp
qed

lemma sint_version: "(v :: 8 word) < 62 \<Longrightarrow> sint v = uint v"
proof -
  assume "v < 62"
  then have "uint v < 62" by (rule uint_version)
  then have hi: "uint v < 2 ^ 7" by simp
  have "- (2 ^ 7) \<le> (0::int)" by simp
  also have "(0::int) \<le> uint v" by simp
  finally have lo: "- (2 ^ 7) \<le> uint v" .
  have "signed_take_bit 7 (uint v) = uint v"
    using lo hi by (rule signed_take_bit_int_eq_self)
  then show ?thesis by (simp add: sint_uint)
qed

lemma base62DecodeFixed_EncodeFixed:
  assumes ok: "codec_ok c" and d: "distinct (take 62 (alphabet c))"
  shows "base62DecodeFixed c (base62EncodeFixed c u) = Inr u"
proof -
  have r: "rev_tab c (alphabet c ! k) = int k" if "k \<in> set (digits62 11 (unat u))" for k
    using ok d digits62_lt [OF that] by (simp add: codec_ok_def build_rev_distinct)
  have "base62Decode_loop (rev_tab c) (map ((!) (alphabet c)) (digits62 11 (unat u))) 0
        = Inr (foldl (\<lambda>a d. a * 62 + of_nat d) 0 (digits62 11 (unat u)))"
    by (rule base62Decode_loop_digits) (rule r)
  then show ?thesis
    by (simp add: base62DecodeFixed_def base62EncodeFixed_digits base62_value_roundtrip
        del: digits62.simps)
qed

lemma length_base62EncodeFixed: "length (base62EncodeFixed c u) = 11"
  by (simp add: base62EncodeFixed_digits del: digits62.simps)

lemma codec_roundtrip_ok:
  assumes ok: "codec_ok c" and d: "distinct (take 62 (alphabet c))"
  shows "DecodeToUint64 hmac c (EncodeUint64 hmac c x) = Inr x"
proof -
  define enc where "enc = permutation c x"
  define body where "body = base62EncodeFixed c enc"
  define pad where "pad = hmacPadding hmac c enc (kind c)"
  define v where "v = alphabet c ! unat (version c)"
  have s: "EncodeUint64 hmac c x = v # body @ pad"
    by (simp add: EncodeUint64_def EncodeUint64WithKind_def token_def Let_def
        enc_def body_def pad_def v_def)
  have lb: "length body = 11" by (simp add: body_def length_base62EncodeFixed)
  have lp: "length pad = nat (macLen c)" by (simp add: pad_def length_hmacPadding)
  have len: "int (length (v # body @ pad)) = 1 + 11 + macLen c"
    using ok lb lp by (simp add: codec_ok_def)
  have "rev_tab c v = int (unat (version c))"
    using ok d by (simp add: v_def codec_ok_def build_rev_distinct unat_version del: of_nat_unat)
  then have ver: "rev_tab c v = sint (version c)"
    using ok by (simp add: codec_ok_def sint_version)
  have tb: "take 11 (drop 1 (v # body @ pad)) = body" using lb by simp
  have dp: "drop 12 (v # body @ pad) = pad" using lb by simp
  have dec: "base62DecodeFixed c body = Inr enc"
    unfolding body_def by (rule base62DecodeFixed_EncodeFixed [OF ok d])
  have "decodeInternal hmac c (v # body @ pad) True (kind c) = Inr (inversePermutation c enc)"
    unfolding decodeInternal_def Let_def
    using len ver dec by (simp only: tb dp nth_Cons_0 if_False simp_thms sum.case
        ConstantTimeCompare_def pad_def [symmetric] if_True)
  then show ?thesis
    by (simp add: DecodeToUint64_def DecodeToUint64WithKind_def s enc_def
        inversePermutation_permutation)
qed

lemma build_rev_dup: "build_rev (CHR ''0'' # DefaultAlphabet) (CHR ''0'') = 1"
  by code_simp

lemma distinct_DefaultAlphabet: "distinct DefaultAlphabet"
  unfolding DefaultAlphabet_def by simp

lemma length_DefaultAlphabet: "length DefaultAlphabet = 62"
  unfolding DefaultAlphabet_def by simp

lemma base62Decode_loop_eq:
  "base62Decode_loop r s u =
     (if \<exists>ch \<in> set s. r ch < 0 then Inl ErrInvalidBase62Char
      else Inr (foldl (\<lambda>u ch. u * 62 + word_of_int (r ch)) u s))"
  by (induction s arbitrary: u) (simp_all add: Let_def)

text \<open>
  Round trip, for every codec that the constructor returns and whose first 62 alphabet
  bytes are pairwise distinct: decoding the token of \<open>x\<close> gives \<open>x\<close> and no error, for any
  hash functions.
\<close>

lemma codec_roundtrip:
  assumes "NewCodecFromSecret sha256 cfg = Inr c" and "distinct (take 62 (alphabet c))"
  shows "DecodeToUint64 hmac c (EncodeUint64 hmac c x) = Inr x"
  using assms by (intro codec_roundtrip_ok NewCodecFromSecret_ok)

lemma codec_roundtrip_default:
  assumes "NewCodecFromSecret sha256 cfg = Inr c" and "Alphabet cfg = []"
  shows "DecodeToUint64 hmac c (EncodeUint64 hmac c x) = Inr x"
proof -
  from assms have "alphabet c = DefaultAlphabet"
    by (auto simp: NewCodecFromSecret_def Let_def split: if_splits)
  then have "distinct (take 62 (alphabet c))"
    by (simp add: distinct_DefaultAlphabet)
  with assms(1) show ?thesis by (rule codec_roundtrip)
qed

text \<open>
  Claim C1 (round trip for every successfully constructed codec, the alphabet containing
  at least 62 distinct characters).  The constructor only checks that the alphabet has at
  least 62 bytes, and \<open>rev\<close> is filled from its first 62 bytes.  For the alphabet of
  \<^const>\<open>cfg_dup\<close> (63 bytes, 62 distinct characters, version 0, \<open>macLen = 1\<close>) the
  constructor succeeds, and for every identifier, whatever SHA-256 and HMAC compute, decoding
  the encoded token fails with \<open>ErrVersionMismatch\<close>: the version character \<open>0\<close> is at
  indices 0 and 1, so \<open>rev\<close> maps it to 1.
\<close>

theorem roundtrip_fails_on_repeated_alphabet_char:
  "\<forall>sha256 hmac x. \<exists>c. NewCodecFromSecret sha256 cfg_dup = Inr c
       \<and> DecodeToUint64 hmac c (EncodeUint64 hmac c x) = Inl ErrVersionMismatch"
proof (intro allI)
  fix sha256 :: "string \<Rightarrow> string" and hmac :: "string \<Rightarrow> string \<Rightarrow> string" and x :: u64
  show "\<exists>c. NewCodecFromSecret sha256 cfg_dup = Inr c
       \<and> DecodeToUint64 hmac c (EncodeUint64 hmac c x) = Inl ErrVersionMismatch"
  proof -
    obtain c where c: "NewCodecFromSecret sha256 cfg_dup = Inr c"
      and a: "alphabet c = CHR ''0'' # DefaultAlphabet" and v: "version c = 0" and m: "macLen c = 1"
      and r: "rev_tab c = build_rev (CHR ''0'' # DefaultAlphabet)"
      by (simp add: NewCodecFromSecret_def cfg_dup_def Let_def length_DefaultAlphabet)
    define s where "s = EncodeUint64 hmac c x"
    have s: "s = CHR ''0'' # base62EncodeFixed c (permutation c x)
                 @ hmacPadding hmac c (permutation c x) (kind c)"
      by (simp add: s_def EncodeUint64_def EncodeUint64WithKind_def token_def Let_def a v)
    have len: "int (length s) = 1 + 11 + macLen c"
      by (simp add: s length_base62EncodeFixed length_hmacPadding m)
    have "decodeInternal hmac c s True (kind c) = Inl ErrVersionMismatch"
      unfolding decodeInternal_def Let_def using len
      by (simp add: s r v build_rev_dup)
    then show ?thesis using c by (auto simp: DecodeToUint64_def DecodeToUint64WithKind_def s_def)
  qed
qed

lemma BigEndian_Uint64_zeros: "BigEndian_Uint64 (replicate n (CHR 0x00)) = 0"
  by (induction n) (simp_all add: BigEndian_Uint64_def)

lemma NewCodecFromSecret_long: "NewCodecFromSecret (\<lambda>_. []) cfg_long = Inr codec_long"
  by (simp add: NewCodecFromSecret_def cfg_long_def codec_long_def Let_def derive_def
      BigEndian_Uint64_zeros length_DefaultAlphabet)

lemma build_rev_long:
  "build_rev (DefaultAlphabet @ ''!'') (CHR ''!'') = - 1"
  "build_rev (DefaultAlphabet @ ''!'') (CHR ''0'') = 0"
  by code_simp+

text \<open>
  Claim C4 says that the third check fails when a body character is outside the alphabet.
  The codec uses the first 62 bytes of its alphabet only: \<open>rev\<close> is filled for the indices
  below 62.  For the alphabet of 63 distinct characters that ends in \<open>!\<close>, the string
  \<open>00000!0000000\<close> has the right length and the version character, and every character of
  its body is in the alphabet; \<open>DecodeToUint64\<close> returns \<open>ErrInvalidBase62Char\<close>.
\<close>

theorem DecodeToUint64_long_alphabet_counterexample:
  "NewCodecFromSecret (\<lambda>_. []) cfg_long = Inr codec_long
   \<and> int (length ''00000!0000000'') = 1 + 11 + macLen codec_long
   \<and> rev_tab codec_long (''00000!0000000'' ! 0) = uint (version codec_long)
   \<and> set (take 11 (drop 1 ''00000!0000000'')) \<subseteq> set (alphabet codec_long)
   \<and> DecodeToUint64 (\<lambda>_ _. []) codec_long ''00000!0000000'' = Inl ErrInvalidBase62Char"
proof -
  have a: "set (take 11 (drop 1 ''00000!0000000'')) \<subseteq> set (alphabet codec_long)"
    by (simp add: codec_long_def DefaultAlphabet_def)
  have b: "DecodeToUint64 (\<lambda>_ _. []) codec_long ''00000!0000000'' = Inl ErrInvalidBase62Char"
    by (simp add: DecodeToUint64_def DecodeToUint64WithKind_def decodeInternal_def
        base62DecodeFixed_def codec_long_def build_rev_long Let_def)
  have c: "rev_tab codec_long (''00000!0000000'' ! 0) = uint (version codec_long)"
    by (simp add: codec_long_def build_rev_long)
  from NewCodecFromSecret_long a b c show ?thesis by (simp add: codec_long_def)
qed

text \<open>
  Claim C4, amended.  For a codec returned by the constructor, \<open>DecodeToUint64\<close> checks,
  in this order: the length (\<open>ErrInvalidLength\<close> unless it is \<open>1 + 11 + macLen\<close>), the
  version character (\<open>ErrVersionMismatch\<close> unless \<open>rev\<close> maps \<open>s[0]\<close> to the version), the
  body (\<open>ErrInvalidBase62Char\<close> if one of its 11 bytes is not among the first 62 bytes of
  the alphabet, the characters that the codec uses: the whole alphabet when it has 62
  bytes, as the default one has), and the pad (\<open>ErrMACVerification\<close> unless it is the pad
  recomputed from the decoded body); otherwise it succeeds with the inverse permutation of
  the body value.  Each error is the error value itself, never a wrapped one.
\<close>

theorem DecodeToUint64_check_order:
  assumes c: "NewCodecFromSecret sha256 cfg = Inr c"
  shows "DecodeToUint64 hmac c s =
     (if int (length s) \<noteq> 1 + 11 + macLen c then Inl ErrInvalidLength
      else if rev_tab c (s ! 0) \<noteq> uint (version c) then Inl ErrVersionMismatch
      else if \<exists>ch \<in> set (take 11 (drop 1 s)). ch \<notin> set (take 62 (alphabet c))
        then Inl ErrInvalidBase62Char
      else if drop 12 s \<noteq> hmacPadding hmac c (body_value c s) (kind c)
        then Inl ErrMACVerification
      else Inr (inversePermutation c (body_value c s)))"
proof -
  have ok: "codec_ok c" using c by (rule NewCodecFromSecret_ok)
  then have sv: "sint (version c) = uint (version c)"
    by (simp add: codec_ok_def sint_version)
  have neg: "rev_tab c ch < 0 \<longleftrightarrow> ch \<notin> set (take 62 (alphabet c))" for ch
    using ok by (simp add: codec_ok_def build_rev_neg_iff)
  show ?thesis
  proof (cases "int (length s) = 1 + 11 + macLen c")
    case False
    then show ?thesis
      by (simp add: DecodeToUint64_def DecodeToUint64WithKind_def decodeInternal_def)
  next
    case True
    with ok have "12 \<le> length s" by (simp add: codec_ok_def)
    then have l11: "length (take 11 (drop 1 s)) = 11" by simp
    have dec: "base62DecodeFixed c (take 11 (drop 1 s)) =
        (if \<exists>ch \<in> set (take 11 (drop 1 s)). ch \<notin> set (take 62 (alphabet c))
         then Inl ErrInvalidBase62Char else Inr (body_value c s))"
      unfolding base62DecodeFixed_def body_value_def base62Decode_loop_eq
      using l11 by (simp only: neg if_False simp_thms)
    show ?thesis
      unfolding DecodeToUint64_def DecodeToUint64WithKind_def decodeInternal_def Let_def dec sv
        ConstantTimeCompare_def
      using True by (simp split: if_splits)
  qed
qed

theorem DecodeToUint64_check_order_witness:
  "\<exists>c. NewCodecFromSecret (\<lambda>_. []) example_cfg = Inr c
     \<and> DecodeToUint64 (\<lambda>_ _. []) c ''0000000000A1'' = Inl ErrInvalidLength
     \<and> DecodeToUint64 (\<lambda>_ _. []) c ''1000000000A1abcdef'' = Inl ErrVersionMismatch
     \<and> DecodeToUint64 (\<lambda>_ _. []) c ''00000000-0A1abcdef'' = Inl ErrInvalidBase62Char"
proof -
  obtain c where c: "NewCodecFromSecret (\<lambda>_. []) example_cfg = Inr c"
    and a: "alphabet c = DefaultAlphabet" and v: "version c = 0" and m: "macLen c = 6"
    and r: "rev_tab c = build_rev DefaultAlphabet"
    by (simp add: NewCodecFromSecret_def example_cfg_def Let_def length_DefaultAlphabet)
  have r0: "build_rev DefaultAlphabet (CHR ''0'') = 0" by code_simp
  have r1: "build_rev DefaultAlphabet (CHR ''1'') = 1" by code_simp
  have t: "take 62 DefaultAlphabet = DefaultAlphabet" by (simp add: length_DefaultAlphabet)
  have n: "CHR ''-'' \<notin> set DefaultAlphabet" by (simp add: DefaultAlphabet_def)
  have "DecodeToUint64 (\<lambda>_ _. []) c ''0000000000A1'' = Inl ErrInvalidLength"
    using DecodeToUint64_check_order [OF c, of "\<lambda>_ _. []" "''0000000000A1''"]
    by (simp add: m)
  moreover have "DecodeToUint64 (\<lambda>_ _. []) c ''1000000000A1abcdef'' = Inl ErrVersionMismatch"
    using DecodeToUint64_check_order [OF c, of "\<lambda>_ _. []" "''1000000000A1abcdef''"]
    by (simp add: m r r1 v)
  moreover have "DecodeToUint64 (\<lambda>_ _. []) c ''00000000-0A1abcdef'' = Inl ErrInvalidBase62Char"
    using DecodeToUint64_check_order [OF c, of "\<lambda>_ _. []" "''00000000-0A1abcdef''"] n
    by (simp add: m r r0 v a t)
  ultimately show ?thesis using c by blast
qed

text \<open>
  Claim C10.  \<open>DecodeBodyOnly\<close> returns \<open>ErrInvalidLength\<close> exactly for the strings shorter
  than 12 bytes.  Every string of at least 12 bytes, also one longer than a token, passes the
  length check: the result is then \<open>ErrInvalidBase62Char\<close> or the body value, and it is a
  function of the bytes at positions 1 to 11 alone, so two such strings with the same
  bytes there (whatever their first byte, pad and length) give the same result.  This holds
  for every codec value.
\<close>

theorem DecodeBodyOnly_length_and_body:
  "(DecodeBodyOnly c s = Inl ErrInvalidLength \<longleftrightarrow> length s < 12)
   \<and> (12 \<le> length s \<longrightarrow>
        DecodeBodyOnly c s =
          (if \<exists>ch \<in> set (take 11 (drop 1 s)). rev_tab c ch < 0 then Inl ErrInvalidBase62Char
           else Inr (body_value c s)))
   \<and> (12 \<le> length s \<longrightarrow> 12 \<le> length t \<longrightarrow> take 11 (drop 1 t) = take 11 (drop 1 s)
        \<longrightarrow> DecodeBodyOnly c t = DecodeBodyOnly c s)"
proof -
  have a: "DecodeBodyOnly c s =
          (if \<exists>ch \<in> set (take 11 (drop 1 s)). rev_tab c ch < 0 then Inl ErrInvalidBase62Char
           else Inr (body_value c s))" if "12 \<le> length s" for s
  proof -
    from that have "length (take 11 (drop 1 s)) = 11" by simp
    with that show ?thesis
      by (simp add: DecodeBodyOnly_def base62DecodeFixed_def base62Decode_loop_eq body_value_def)
  qed
  have b: "DecodeBodyOnly c s = Inl ErrInvalidLength" if "length s < 12"
    using that by (simp add: DecodeBodyOnly_def)
  have c: "DecodeBodyOnly c s \<noteq> Inl ErrInvalidLength" if "12 \<le> length s"
    using a [OF that] by simp
  have d: "DecodeBodyOnly c t = DecodeBodyOnly c s"
    if "12 \<le> length s" "12 \<le> length t" "take 11 (drop 1 t) = take 11 (drop 1 s)"
    using that by (simp add: DecodeBodyOnly_def)
  show ?thesis using a b c d by (metis not_le)
qed

theorem DecodeBodyOnly_length_and_body_witness:
  "12 \<le> length ''0000000000A1abcdef'' \<and> 12 \<le> length ''z000000000A1QQQQQQand more''
   \<and> take 11 (drop 1 ''z000000000A1QQQQQQand more'') = take 11 (drop 1 ''0000000000A1abcdef'')
   \<and> DecodeBodyOnly example_codec ''z000000000A1QQQQQQand more''
       = DecodeBodyOnly example_codec ''0000000000A1abcdef''
   \<and> length ''00000000001'' < 12
   \<and> DecodeBodyOnly example_codec ''00000000001'' = Inl ErrInvalidLength"
  using DecodeBodyOnly_length_and_body
      [of example_codec "''0000000000A1abcdef''" "''z000000000A1QQQQQQand more''"]
    DecodeBodyOnly_length_and_body [of example_codec "''00000000001''"]
  by simp
section \<open>Throttler: properties\<close>

lemma Throttler_Stop_fresh:
  "stopOnce t = OnceFresh \<Longrightarrow>
   Throttler_Stop t = Some (t\<lparr>stopOnce := OnceDone, stop_closed := True\<rparr>,
                            (if onStop_t t then [OnStopCalled] else []) @ [StopClosed])"
  by (simp add: Throttler_Stop_def Stop_enter_def Stop_close_def)

lemma Throttler_Stop_done: "stopOnce t = OnceDone \<Longrightarrow> Throttler_Stop t = Some (t, [])"
  by (simp add: Throttler_Stop_def)

lemma Stop_times_done: "stopOnce t = OnceDone \<Longrightarrow> Stop_times n t = Some (t, [])"
  by (induction n) (simp_all add: Throttler_Stop_done)

lemma Stop_times_fresh:
  "stopOnce t = OnceFresh \<Longrightarrow> Stop_times (Suc n) t = Throttler_Stop t"
  by (simp add: Throttler_Stop_fresh Stop_times_done)


lemma Acquire_cases:
  obtains (blocked) "Acquire_ready t c = []" "Acquire t c p = (t, AcquireBlocked)"
  | (ok) "0 < tokens t" "Acquire t c p = (t\<lparr>tokens := tokens t - 1\<rparr>, AcquireOk)"
  | (stopped) "stop_closed t" "Acquire t c p = (t, AcquireStopped)"
  | (ctx) "c" "Acquire t c p = (t, AcquireCtxErr)"
proof (cases "Acquire_ready t c = []")
  case True
  then have "Acquire t c p = (t, AcquireBlocked)" by (simp add: Acquire_def)
  with True show ?thesis by (rule blocked)
next
  case False
  let ?ready = "Acquire_ready t c"
  let ?r = "?ready ! (p mod length ?ready)"
  from False have m: "?r \<in> set ?ready" by simp
  show ?thesis
  proof (cases ?r)
    case AcquireCtxErr
    with m have "c" by (auto simp: Acquire_ready_def split: if_splits)
    moreover from False AcquireCtxErr have "Acquire t c p = (t, AcquireCtxErr)"
      by (simp add: Acquire_def Let_def)
    ultimately show ?thesis by (rule ctx)
  next
    case AcquireStopped
    with m have "stop_closed t" by (auto simp: Acquire_ready_def split: if_splits)
    moreover from False AcquireStopped have "Acquire t c p = (t, AcquireStopped)"
      by (simp add: Acquire_def Let_def)
    ultimately show ?thesis by (rule stopped)
  next
    case AcquireOk
    with m have "0 < tokens t" by (auto simp: Acquire_ready_def split: if_splits)
    moreover from False AcquireOk
    have "Acquire t c p = (t\<lparr>tokens := tokens t - 1\<rparr>, AcquireOk)"
      by (simp add: Acquire_def Let_def)
    ultimately show ?thesis by (rule ok)
  next
    case AcquireBlocked
    with m show ?thesis by (auto simp: Acquire_ready_def split: if_splits)
  qed
qed

lemma refill_round_cases:
  obtains (idle) "\<not> refill_alive t \<or> refill_ready t c k = []" "refill_round t c k p = (t, None)"
  | (tick) "refill_alive t" "k" "refill_round t c k p = (refill_deposit t, Some RefillTick)"
  | (stop) "refill_alive t" "stop_closed t"
      "refill_round t c k p = (t\<lparr>refill_alive := False\<rparr>, Some RefillStop)"
  | (ctx) "refill_alive t" "c"
      "refill_round t c k p = (t\<lparr>refill_alive := False\<rparr>, Some RefillCtxDone)"
proof (cases "\<not> refill_alive t \<or> refill_ready t c k = []")
  case True
  then have "refill_round t c k p = (t, None)" by (auto simp: refill_round_def)
  with True show ?thesis by (rule idle)
next
  case False
  let ?ready = "refill_ready t c k"
  let ?r = "?ready ! (p mod length ?ready)"
  from False have a: "refill_alive t" and ne: "?ready \<noteq> []" by simp_all
  from ne have m: "?r \<in> set ?ready" by simp
  show ?thesis
  proof (cases ?r)
    case RefillCtxDone
    with m have "c" by (auto simp: refill_ready_def split: if_splits)
    moreover from a ne RefillCtxDone
    have "refill_round t c k p = (t\<lparr>refill_alive := False\<rparr>, Some RefillCtxDone)"
      by (simp add: refill_round_def Let_def)
    ultimately show ?thesis using a ctx by blast
  next
    case RefillStop
    with m have "stop_closed t" by (auto simp: refill_ready_def split: if_splits)
    moreover from a ne RefillStop
    have "refill_round t c k p = (t\<lparr>refill_alive := False\<rparr>, Some RefillStop)"
      by (simp add: refill_round_def Let_def)
    ultimately show ?thesis using a stop by blast
  next
    case RefillTick
    with m have "k" by (auto simp: refill_ready_def split: if_splits)
    moreover from a ne RefillTick
    have "refill_round t c k p = (refill_deposit t, Some RefillTick)"
      by (simp add: refill_round_def Let_def)
    ultimately show ?thesis using a tick by blast
  qed
qed

lemma refill_deposit_fields [simp]:
  "onStop_t (refill_deposit t) = onStop_t t"
  "stopOnce (refill_deposit t) = stopOnce t"
  "stop_closed (refill_deposit t) = stop_closed t"
  "refill_alive (refill_deposit t) = refill_alive t"
  "tokens_cap (refill_deposit t) = tokens_cap t"
  by (simp_all add: refill_deposit_def)

lemma refill_round_fields:
  "onStop_t (fst (refill_round t c k p)) = onStop_t t"
  "stopOnce (fst (refill_round t c k p)) = stopOnce t"
  "stop_closed (fst (refill_round t c k p)) = stop_closed t"
  by (rule refill_round_cases [where t = t and c = c and k = k and p = p]; simp)+

lemma Acquire_fields:
  "onStop_t (fst (Acquire t c p)) = onStop_t t"
  "stopOnce (fst (Acquire t c p)) = stopOnce t"
  "stop_closed (fst (Acquire t c p)) = stop_closed t"
  "refill_alive (fst (Acquire t c p)) = refill_alive t"
  by (rule Acquire_cases [where t = t and c = c and p = p]; simp)+

lemma step_refill:
  "fst (throttler_step t (OpRefill c k p)) = fst (refill_round t c k p)"
  "snd (throttler_step t (OpRefill c k p))
     = (case snd (refill_round t c k p) of None \<Rightarrow> [] | Some r \<Rightarrow> [ObsRefill r])"
  by (simp_all split: prod.splits option.splits)

lemma step_acquire:
  "fst (throttler_step t (OpAcquire c p)) = fst (Acquire t c p)"
  "snd (throttler_step t (OpAcquire c p)) = [ObsAcquire (snd (Acquire t c p))]"
  by (simp_all split: prod.splits)

lemma step_onStop_t: "onStop_t (fst (throttler_step t op)) = onStop_t t"
  by (cases op)
     (simp_all add: Stop_enter_def Stop_close_def TryAcquire_def step_refill step_acquire
        refill_round_fields Acquire_fields del: throttler_step.simps(4,6))

lemma step_stopOnce:
  "stopOnce (fst (throttler_step t op)) =
     (if op = OpStopEnter \<and> stopOnce t = OnceFresh then OnceRunning
      else if op = OpStopClose \<and> stopOnce t = OnceRunning then OnceDone
      else stopOnce t)"
  by (cases op)
     (simp_all add: Stop_enter_def Stop_close_def TryAcquire_def step_refill step_acquire
        refill_round_fields Acquire_fields del: throttler_step.simps(4,6))


lemma step_obs_onStop:
  "count_list (snd (throttler_step t op)) (ObsStop OnStopCalled) =
     (if op = OpStopEnter \<and> stopOnce t = OnceFresh \<and> onStop_t t then 1 else 0)"
  by (cases op)
     (simp_all add: Stop_enter_def Stop_close_def TryAcquire_def step_refill step_acquire
        split: option.splits del: throttler_step.simps(4,6))

lemma count_list_append': "count_list (xs @ ys) x = count_list xs x + count_list ys x"
  by (induction xs) simp_all

lemma run_count_not_fresh:
  "stopOnce t \<noteq> OnceFresh \<Longrightarrow> count_list (snd (throttler_run t ops)) (ObsStop OnStopCalled) = 0"
proof (induction ops arbitrary: t)
  case Nil
  then show ?case by simp
next
  case (Cons op ops)
  have "stopOnce (fst (throttler_step t op)) \<noteq> OnceFresh"
    using Cons.prems by (simp add: step_stopOnce del: throttler_step.simps)
  from Cons.IH [OF this] Cons.prems show ?case
    by (simp add: split_beta count_list_append' step_obs_onStop del: throttler_step.simps)
qed

lemma run_count_fresh:
  "stopOnce t = OnceFresh \<Longrightarrow>
   count_list (snd (throttler_run t ops)) (ObsStop OnStopCalled) =
     (if onStop_t t \<and> OpStopEnter \<in> set ops then 1 else 0)"
proof (induction ops arbitrary: t)
  case Nil
  then show ?case by simp
next
  case (Cons op ops)
  show ?case
  proof (cases "op = OpStopEnter")
    case True
    have "stopOnce (fst (throttler_step t op)) \<noteq> OnceFresh"
      using Cons.prems True by (simp add: step_stopOnce del: throttler_step.simps)
    from run_count_not_fresh [OF this, of ops] Cons.prems True show ?thesis
      by (simp add: split_beta count_list_append' step_obs_onStop del: throttler_step.simps)
  next
    case False
    have f: "stopOnce (fst (throttler_step t op)) = OnceFresh"
      using Cons.prems False by (simp add: step_stopOnce del: throttler_step.simps)
    from Cons.IH [OF f] False show ?thesis
      by (simp add: split_beta count_list_append' step_obs_onStop step_onStop_t
          del: throttler_step.simps)
  qed
qed

lemma onStop_before_stop_append:
  "onStop_before_stop seen (xs @ ys) \<longleftrightarrow>
     onStop_before_stop seen xs
     \<and> onStop_before_stop (seen \<or> ObsStop OnStopCalled \<in> set xs) ys"
  by (induction seen xs rule: onStop_before_stop.induct) auto

lemma step_inv:
  assumes "stop_inv t seen" "onStop_t t"
  shows "onStop_before_stop seen (snd (throttler_step t op))
     \<and> stop_inv (fst (throttler_step t op)) (seen \<or> ObsStop OnStopCalled \<in> set (snd (throttler_step t op)))"
proof (cases op)
  case OpStopEnter
  with assms show ?thesis by (auto simp: stop_inv_def Stop_enter_def)
next
  case OpStopClose
  with assms show ?thesis by (auto simp: stop_inv_def Stop_close_def)
next
  case OpStopReturn
  with assms show ?thesis by (auto simp: stop_inv_def)
next
  case (OpRefill c k p)
  with assms show ?thesis
    by - (rule refill_round_cases [where t = t and c = c and k = k and p = p], auto simp: stop_inv_def)
next
  case OpTryAcquire
  with assms show ?thesis by (auto simp: stop_inv_def TryAcquire_def)
next
  case (OpAcquire c p)
  with assms show ?thesis
    by - (rule Acquire_cases [where t = t and c = c and p = p], auto simp: stop_inv_def)
qed

lemma run_inv:
  "stop_inv t seen \<Longrightarrow> onStop_t t \<Longrightarrow> onStop_before_stop seen (snd (throttler_run t ops))"
proof (induction ops arbitrary: t seen)
  case Nil
  then show ?case by simp
next
  case (Cons op ops)
  from step_inv [OF Cons.prems, of op]
  have a: "onStop_before_stop seen (snd (throttler_step t op))"
    and b: "stop_inv (fst (throttler_step t op))
              (seen \<or> ObsStop OnStopCalled \<in> set (snd (throttler_step t op)))" by simp_all
  have c: "onStop_t (fst (throttler_step t op))" using Cons.prems
    by (simp add: step_onStop_t del: throttler_step.simps)
  from Cons.IH [OF b c] a show ?case
    by (simp add: split_beta onStop_before_stop_append del: throttler_step.simps)
qed

lemma NewThrottler_fresh:
  "NewThrottler topts = Inr t \<Longrightarrow>
   stopOnce t = OnceFresh \<and> \<not> stop_closed t \<and> onStop_t t = OnStop_t topts"
  by (auto simp: NewThrottler_def Let_def split: if_splits)

lemma NewThrottler_example: "NewThrottler example_throttler_opts = Inr example_throttler"
  by (simp add: NewThrottler_def example_throttler_opts_def example_throttler_def)

text \<open>What a history does to \<open>stop\<close>, to the tokens and to \<open>refill\<close>.\<close>

lemma throttler_run_append:
  "throttler_run t (xs @ ys) =
     (fst (throttler_run (fst (throttler_run t xs)) ys),
      snd (throttler_run t xs) @ snd (throttler_run (fst (throttler_run t xs)) ys))"
  by (induction xs arbitrary: t) (simp_all add: split_beta del: throttler_step.simps)















text \<open>
  Claim C7.  \<open>Throttler.Stop\<close> is idempotent: for a throttler from the constructor, any
  positive number of \<open>Stop\<close> calls in sequence all return, and they invoke \<open>onStop\<close> (when
  set) once and then close \<open>stop\<close> once.  In every interleaving of the steps of concurrent
  callers (\<open>Stop\<close> calls split at the point between \<open>onStop()\<close> and \<open>close(t.stop)\<close>, rounds
  of \<open>refill\<close>, \<open>TryAcquire\<close> and \<open>Acquire\<close> calls), \<open>onStop\<close> is invoked exactly once if it is
  set and some caller entered \<open>Stop\<close>, and never otherwise; and when \<open>onStop\<close> is set, its
  invocation comes before the closing of \<open>stop\<close> and before every \<open>Acquire\<close> that returns
  the stopped error.
\<close>

theorem Throttler_Stop_once:
  assumes "NewThrottler topts = Inr t0"
  shows "map_option snd (Stop_times (Suc n) t0)
        = Some ((if OnStop_t topts then [OnStopCalled] else []) @ [StopClosed])
    \<and> count_list (snd (throttler_run t0 ops)) (ObsStop OnStopCalled)
        = (if OnStop_t topts \<and> OpStopEnter \<in> set ops then 1 else 0)
    \<and> (OnStop_t topts \<longrightarrow> onStop_before_stop False (snd (throttler_run t0 ops)))"
proof -
  from assms have f: "stopOnce t0 = OnceFresh" and c: "\<not> stop_closed t0"
    and o: "onStop_t t0 = OnStop_t topts"
    using NewThrottler_fresh by blast+
  have 1: "map_option snd (Stop_times (Suc n) t0)
        = Some ((if OnStop_t topts then [OnStopCalled] else []) @ [StopClosed])"
    using f o by (simp only: Stop_times_fresh Throttler_Stop_fresh option.map snd_conv)
  have 2: "count_list (snd (throttler_run t0 ops)) (ObsStop OnStopCalled)
        = (if OnStop_t topts \<and> OpStopEnter \<in> set ops then 1 else 0)"
    using run_count_fresh [OF f, of ops] o by simp
  have "stop_inv t0 False" using f c by (simp add: stop_inv_def)
  then have 3: "OnStop_t topts \<longrightarrow> onStop_before_stop False (snd (throttler_run t0 ops))"
    using o by (auto intro: run_inv)
  from 1 2 3 show ?thesis by blast
qed

theorem Throttler_Stop_once_witness:
  "NewThrottler example_throttler_opts = Inr example_throttler
   \<and> map_option snd (Stop_times 3 example_throttler) = Some [OnStopCalled, StopClosed]
   \<and> snd (throttler_run example_throttler example_throttler_ops)
       = [ObsTryAcquire True, ObsStop OnStopCalled, ObsAcquire AcquireOk, ObsStop StopClosed,
          ObsStopReturned, ObsRefill RefillTick, ObsAcquire AcquireStopped, ObsAcquire AcquireOk,
          ObsTryAcquire False]
   \<and> count_list (snd (throttler_run example_throttler example_throttler_ops)) (ObsStop OnStopCalled) = 1
   \<and> onStop_before_stop False (snd (throttler_run example_throttler example_throttler_ops))"
proof -
  have t: "snd (throttler_run example_throttler example_throttler_ops)
       = [ObsTryAcquire True, ObsStop OnStopCalled, ObsAcquire AcquireOk, ObsStop StopClosed,
          ObsStopReturned, ObsRefill RefillTick, ObsAcquire AcquireStopped, ObsAcquire AcquireOk,
          ObsTryAcquire False]"
    by (simp add: example_throttler_def example_throttler_ops_def TryAcquire_def Acquire_def
        Acquire_ready_def Stop_enter_def Stop_close_def refill_round_def refill_ready_def
        refill_deposit_def Let_def)
  have o: "OnStop_t example_throttler_opts" "OpStopEnter \<in> set example_throttler_ops"
    by (simp_all add: example_throttler_opts_def example_throttler_ops_def)
  from Throttler_Stop_once [OF NewThrottler_example, of 2 example_throttler_ops] o t NewThrottler_example
  show ?thesis by (simp add: numeral_3_eq_3)
qed




section \<open>Debouncer and Coalescer: properties\<close>

lemma NewDebouncer_example: "NewDebouncer [] example_debounce_opts = Inr example_debouncer"
  by (simp add: NewDebouncer_def example_debounce_opts_def example_debouncer_def)

lemma Debouncer_Stop_stopped: "stopped d \<Longrightarrow> Debouncer_Stop d = (d, [Lock, Unlock])"
  by (simp add: Debouncer_Stop_def)

lemma Debouncer_Trigger_stopped: "stopped d \<Longrightarrow> Debouncer_Trigger d v = (d, [Lock, Unlock])"
  by (simp add: Debouncer_Trigger_def)

lemma Debouncer_Flush_stopped: "stopped d \<Longrightarrow> Debouncer_Flush d = (d, [Lock, Unlock])"
  by (simp add: Debouncer_Flush_def)

lemma debouncer_step_stopped:
  "stopped d \<Longrightarrow> fst (debouncer_step d op) = d \<and> callbacks (snd (debouncer_step d op)) = []"
  by (cases op)
     (simp_all add: Debouncer_Stop_def Debouncer_Trigger_def Debouncer_Flush_def
        timerLoop_tick_def maxLoop_tick_def callbacks_def)

lemma callbacks_append: "callbacks (xs @ ys) = callbacks xs @ callbacks ys"
  by (simp add: callbacks_def)

lemma debouncer_run_stopped:
  "stopped d \<Longrightarrow> fst (debouncer_run d ops) = d \<and> callbacks (snd (debouncer_run d ops)) = []"
proof (induction ops)
  case Nil
  then show ?case by (simp add: callbacks_def)
next
  case (Cons op ops)
  with debouncer_step_stopped [of d op] show ?case
    by (simp add: split_beta callbacks_append del: debouncer_step.simps)
qed

lemma Debouncer_Stop_events:
  "\<not> stopped d \<Longrightarrow>
   callbacks (snd (Debouncer_Stop d)) =
     (if (StopMode (opts d) = StopFlush \<or> StopMode (opts d) = StopFlushAndCallback)
         \<and> pending d \<and> Trailing (opts d)
      then [Emit (last_v d)] else [])
     @ (if (StopMode (opts d) = StopCallbackOnly \<or> StopMode (opts d) = StopFlushAndCallback)
          \<and> OnStop_set (opts d)
        then [OnStop (last_v d)] else [])"
  by (simp add: Debouncer_Stop_def Let_def callbacks_def)

lemma Debouncer_Stop_stops: "stopped (fst (Debouncer_Stop d))"
  by (simp add: Debouncer_Stop_def Let_def)

text \<open>
  Claim C5.  \<open>Stop\<close> on a debouncer that is not stopped and has a pending value: the
  callbacks it invokes are, in this order, the trigger callback with the snapshotted \<open>last\<close>
  if the stop mode is \<open>Flush\<close> or \<open>FlushAndCallback\<close> and \<open>trailing\<close> is set, then \<open>onStop\<close>
  with the same value if the stop mode is \<open>CallbackOnly\<close> or \<open>FlushAndCallback\<close> and \<open>onStop\<close>
  is set.  A second \<open>Stop\<close>, a \<open>Trigger\<close> and a \<open>Flush\<close> afterwards change nothing and invoke
  nothing, and so does every later history of calls and timer expiries.
\<close>

theorem Debouncer_Stop_pending:
  assumes "\<not> stopped d" and "pending d"
  shows "callbacks (snd (Debouncer_Stop d)) =
           (if (StopMode (opts d) = StopFlush \<or> StopMode (opts d) = StopFlushAndCallback)
               \<and> Trailing (opts d)
            then [Emit (last_v d)] else [])
           @ (if (StopMode (opts d) = StopCallbackOnly \<or> StopMode (opts d) = StopFlushAndCallback)
                \<and> OnStop_set (opts d)
              then [OnStop (last_v d)] else [])
    \<and> Debouncer_Stop (fst (Debouncer_Stop d)) = (fst (Debouncer_Stop d), [Lock, Unlock])
    \<and> Debouncer_Trigger (fst (Debouncer_Stop d)) v = (fst (Debouncer_Stop d), [Lock, Unlock])
    \<and> Debouncer_Flush (fst (Debouncer_Stop d)) = (fst (Debouncer_Stop d), [Lock, Unlock])
    \<and> fst (debouncer_run (fst (Debouncer_Stop d)) ops) = fst (Debouncer_Stop d)
    \<and> callbacks (snd (debouncer_run (fst (Debouncer_Stop d)) ops)) = []"
  using assms Debouncer_Stop_events [of d] Debouncer_Stop_stops [of d]
  by (simp add: Debouncer_Stop_stopped Debouncer_Trigger_stopped Debouncer_Flush_stopped
      debouncer_run_stopped)

theorem Debouncer_Stop_pending_witness:
  "\<not> stopped (fst (debouncer_run example_debouncer [DTrigger ''X'', DTrigger ''Y'', DTrigger ''Z'']))
   \<and> pending (fst (debouncer_run example_debouncer [DTrigger ''X'', DTrigger ''Y'', DTrigger ''Z'']))
   \<and> callbacks (snd (debouncer_run example_debouncer [DTrigger ''X'', DTrigger ''Y'', DTrigger ''Z'']))
       = [Emit ''X'']
   \<and> callbacks (snd (Debouncer_Stop
        (fst (debouncer_run example_debouncer [DTrigger ''X'', DTrigger ''Y'', DTrigger ''Z'']))))
       = [Emit ''Z'', OnStop ''Z'']
   \<and> callbacks (snd (debouncer_run (fst (Debouncer_Stop
        (fst (debouncer_run example_debouncer [DTrigger ''X'', DTrigger ''Y'', DTrigger ''Z'']))))
        [DTrigger ''W'', DFlush, DStop, DTimer])) = []"
proof -
  let ?d = "fst (debouncer_run example_debouncer [DTrigger ''X'', DTrigger ''Y'', DTrigger ''Z''])"
  have d: "?d = \<lparr> opts = example_debounce_opts, timer = Some True, maxTimer = None,
      last_v = ''Z'', pending = True, stopped = False, timerLoopStarted = True,
      maxLoopStarted = False \<rparr>"
    by (simp add: example_debouncer_def example_debounce_opts_def Debouncer_Trigger_def
        resetTimerLocked_def resetMaxLocked_def Let_def)
  have e: "callbacks (snd (debouncer_run example_debouncer
             [DTrigger ''X'', DTrigger ''Y'', DTrigger ''Z''])) = [Emit ''X'']"
    by (simp add: example_debouncer_def example_debounce_opts_def Debouncer_Trigger_def
        resetTimerLocked_def resetMaxLocked_def Let_def callbacks_def)
  have s: "\<not> stopped ?d" "pending ?d" by (simp_all only: d) simp_all
  have o: "StopMode (opts ?d) = StopFlushAndCallback" "Trailing (opts ?d)" "OnStop_set (opts ?d)"
    "last_v ?d = ''Z''"
    by (simp_all only: d) (simp_all add: example_debounce_opts_def)
  from Debouncer_Stop_pending [OF s, of "''W''" "[DTrigger ''W'', DFlush, DStop, DTimer]"] s o e
  show ?thesis by (simp del: debouncer_run.simps)
qed

lemma NewCoalescer_example:
  "NewCoalescer 0 30 (+) [\<lparr>StopMode_c = StopFlushAndCallback, OnStop_c = True\<rparr>] = Inr example_coalescer"
  by (simp add: NewCoalescer_def example_coalescer_def)





lemma coalescer_step_folder: "folder (fst (coalescer_step c op)) = folder c"
  by (cases op)
     (simp_all add: Coalescer_Add_def Coalescer_Flush_def Coalescer_Stop_def loop_tick_def Let_def)






lemma debouncer_step_fields:
  "opts (fst (debouncer_step d op)) = opts d
   \<and> (op \<noteq> DStop \<longrightarrow> stopped (fst (debouncer_step d op)) = stopped d)
   \<and> (\<not> stopped d \<longrightarrow> last_v (fst (debouncer_step d op)) = (case op of DTrigger v \<Rightarrow> v | _ \<Rightarrow> last_v d))"
  by (cases op)
     (simp_all add: Debouncer_Stop_def Debouncer_Trigger_def Debouncer_Flush_def
        timerLoop_tick_def maxLoop_tick_def resetTimerLocked_def resetMaxLocked_def Let_def)

lemma debouncer_run_fields:
  "\<not> stopped d \<Longrightarrow> DStop \<notin> set ops \<Longrightarrow>
   opts (fst (debouncer_run d ops)) = opts d
   \<and> \<not> stopped (fst (debouncer_run d ops))
   \<and> last_v (fst (debouncer_run d ops)) = last_triggered (last_v d) ops"
proof (induction ops arbitrary: d)
  case Nil
  then show ?case by simp
next
  case (Cons op ops)
  from Cons.prems have n: "op \<noteq> DStop" "DStop \<notin> set ops" by auto
  from debouncer_step_fields [of d op] Cons.prems(1) n(1)
  have o: "opts (fst (debouncer_step d op)) = opts d"
    and s: "\<not> stopped (fst (debouncer_step d op))"
    and l: "last_v (fst (debouncer_step d op)) = (case op of DTrigger v \<Rightarrow> v | _ \<Rightarrow> last_v d)"
    by simp_all
  have lt: "last_triggered (last_v d) (op # ops)
        = last_triggered (case op of DTrigger v \<Rightarrow> v | _ \<Rightarrow> last_v d) ops"
    by (cases op) simp_all
  from Cons.IH [OF s n(2)] o l lt show ?case
    by (simp add: split_beta del: debouncer_step.simps last_triggered.simps)
qed

lemma NewDebouncer_fields:
  "NewDebouncer zero o0 = Inr d0 \<Longrightarrow>
   \<not> stopped d0 \<and> \<not> pending d0 \<and> last_v d0 = zero
   \<and> StopMode (opts d0) = StopMode o0 \<and> OnStop_set (opts d0) = OnStop_set o0"
  by (auto simp: NewDebouncer_def Let_def split: if_splits)

lemma NewCoalescer_fields:
  "NewCoalescer zero win f os = Inr c0 \<Longrightarrow>
   \<not> stopped_c c0 \<and> \<not> hasAcc c0 \<and> acc c0 = zero"
  by (auto simp: NewCoalescer_def Let_def split: if_splits)

lemma Coalescer_Stop_no_acc:
  "\<not> stopped_c c \<Longrightarrow> \<not> hasAcc c \<Longrightarrow>
   (stopMode c = StopCallbackOnly \<or> stopMode c = StopFlushAndCallback) \<Longrightarrow> onStop c \<Longrightarrow>
   callbacks (snd (Coalescer_Stop c)) = [OnStop (acc c)]"
  by (auto simp: Coalescer_Stop_def Let_def callbacks_def)

lemma Coalescer_emit_keeps_acc:
  "acc (fst (Coalescer_Flush c)) = acc c \<and> acc (fst (loop_tick c)) = acc c"
  by (simp add: Coalescer_Flush_def loop_tick_def Let_def)

lemma Debouncer_Stop_not_pending:
  "\<not> stopped d \<Longrightarrow> \<not> pending d \<Longrightarrow>
   StopMode (opts d) = StopCallbackOnly \<or> StopMode (opts d) = StopFlushAndCallback \<Longrightarrow>
   OnStop_set (opts d) \<Longrightarrow>
   callbacks (snd (Debouncer_Stop d)) = [OnStop (last_v d)]"
  using Debouncer_Stop_events [of d] by auto

text \<open>What \<open>onStop\<close> of a coalescer receives after a history.\<close>

lemma window_fold_snoc: "w \<noteq> [] \<Longrightarrow> window_fold zero f (w @ [v]) = f (window_fold zero f w) v"
  by (cases w) (simp_all add: window_fold_def)

lemma coalescer_step_keeps:
  "op \<noteq> CStop \<Longrightarrow>
   stopped_c (fst (coalescer_step c op)) = stopped_c c
   \<and> stopMode (fst (coalescer_step c op)) = stopMode c
   \<and> onStop (fst (coalescer_step c op)) = onStop c
   \<and> folder (fst (coalescer_step c op)) = folder c"
  by (cases op)
     (simp_all add: Coalescer_Add_def Coalescer_Flush_def loop_tick_def Let_def)

lemma window_inv_step:
  assumes "window_inv zero opn w c" and "op \<noteq> CStop"
  shows "case op of
           CAdd v \<Rightarrow> window_inv zero True (if opn then w @ [v] else [v]) (fst (coalescer_step c op))
         | _ \<Rightarrow> window_inv zero (opn \<and> emitted (snd (coalescer_step c op)) = []) w
                  (fst (coalescer_step c op))"
proof (cases op)
  case (CAdd v)
  show ?thesis
  proof (cases opn)
    case True
    with assms have "w \<noteq> []" by (simp add: window_inv_def)
    from window_fold_snoc [OF this] assms CAdd True show ?thesis
      by (simp add: window_inv_def Coalescer_Add_def Let_def)
  next
    case False
    with assms CAdd show ?thesis
      by (simp add: window_inv_def Coalescer_Add_def Let_def window_fold_def)
  qed
next
  case CFlush
  with assms show ?thesis by (auto simp: window_inv_def Coalescer_Flush_def Let_def)
next
  case CTimer
  with assms show ?thesis by (auto simp: window_inv_def loop_tick_def Let_def)
next
  case CStop
  with assms show ?thesis by simp
qed

lemma window_inv_run:
  "window_inv zero opn w c \<Longrightarrow> CStop \<notin> set ops \<Longrightarrow>
   \<not> stopped_c (fst (coalescer_run c ops))
   \<and> acc (fst (coalescer_run c ops)) = window_fold zero (folder c) (last_window opn w c ops)
   \<and> stopMode (fst (coalescer_run c ops)) = stopMode c
   \<and> onStop (fst (coalescer_run c ops)) = onStop c"
proof (induction ops arbitrary: opn w c)
  case Nil
  then show ?case by (simp add: window_inv_def)
next
  case (Cons op ops)
  from Cons.prems have n: "op \<noteq> CStop" "CStop \<notin> set ops" by auto
  note k = coalescer_step_keeps [OF n(1), of c]
  note s = window_inv_step [OF Cons.prems(1) n(1)]
  show ?case
  proof (cases op)
    case (CAdd v)
    with s have "window_inv zero True (if opn then w @ [v] else [v]) (fst (coalescer_step c op))"
      by simp
    from Cons.IH [OF this n(2)] k CAdd show ?thesis
      by (simp add: split_beta del: coalescer_step.simps)
  next
    case CFlush
    with s have "window_inv zero (opn \<and> emitted (snd (coalescer_step c op)) = []) w
                  (fst (coalescer_step c op))" by simp
    from Cons.IH [OF this n(2)] k CFlush show ?thesis
      by (simp add: split_beta del: coalescer_step.simps)
  next
    case CTimer
    with s have "window_inv zero (opn \<and> emitted (snd (coalescer_step c op)) = []) w
                  (fst (coalescer_step c op))" by simp
    from Cons.IH [OF this n(2)] k CTimer show ?thesis
      by (simp add: split_beta del: coalescer_step.simps)
  next
    case CStop
    with n show ?thesis by simp
  qed
qed

lemma NewCoalescer_window_inv:
  "NewCoalescer zero win f os = Inr c0 \<Longrightarrow> window_inv zero False [] c0 \<and> folder c0 = f"
  by (auto simp: NewCoalescer_def window_inv_def window_fold_def Let_def split: if_splits)

lemma Coalescer_Stop_onStop:
  "\<not> stopped_c c \<Longrightarrow> stopMode c = StopCallbackOnly \<or> stopMode c = StopFlushAndCallback \<Longrightarrow>
   onStop c \<Longrightarrow>
   OnStop (acc c) \<in> set (snd (Coalescer_Stop c))
   \<and> (\<not> hasAcc c \<longrightarrow> callbacks (snd (Coalescer_Stop c)) = [OnStop (acc c)])"
  by (auto simp: Coalescer_Stop_def Let_def callbacks_def)

lemma coalescer_history_onStop:
  assumes n: "NewCoalescer zero win f os = Inr c0" and s: "CStop \<notin> set ops"
    and m: "stopMode c0 = StopCallbackOnly \<or> stopMode c0 = StopFlushAndCallback" and o: "onStop c0"
  shows "OnStop (window_fold zero f (last_window False [] c0 ops))
           \<in> set (snd (Coalescer_Stop (fst (coalescer_run c0 ops))))
     \<and> (\<not> hasAcc (fst (coalescer_run c0 ops)) \<longrightarrow>
          callbacks (snd (Coalescer_Stop (fst (coalescer_run c0 ops))))
            = [OnStop (window_fold zero f (last_window False [] c0 ops))])"
proof -
  from NewCoalescer_window_inv [OF n] have i: "window_inv zero False [] c0" and f: "folder c0 = f"
    by simp_all
  from window_inv_run [OF i s] f m o
  have r: "\<not> stopped_c (fst (coalescer_run c0 ops))"
    "acc (fst (coalescer_run c0 ops)) = window_fold zero f (last_window False [] c0 ops)"
    "stopMode (fst (coalescer_run c0 ops)) = StopCallbackOnly
     \<or> stopMode (fst (coalescer_run c0 ops)) = StopFlushAndCallback"
    "onStop (fst (coalescer_run c0 ops))"
    by simp_all
  from Coalescer_Stop_onStop [OF r(1) r(3) r(4)] r(2) show ?thesis by simp
qed

lemma last_window_no_add:
  "CAdd ` UNIV \<inter> set ops = {} \<Longrightarrow> last_window opn w c ops = w"
proof (induction ops arbitrary: opn c)
  case Nil
  then show ?case by simp
next
  case (Cons op ops)
  from Cons.prems have a: "CAdd ` UNIV \<inter> set ops = {}" and b: "\<And>v. op \<noteq> CAdd v" by auto
  from b Cons.IH [OF a] show ?case
    by (cases op) (auto simp add: split_beta simp del: coalescer_step.simps)
qed

text \<open>
  Claim C9 says that \<open>onStop\<close> receives the most-recently-seen value.  A coalescer keeps
  no value it has seen, only the accumulator: after \<open>Add 7\<close>, \<open>Add 8\<close> and a \<open>Flush\<close>, which
  emits 15 and leaves nothing pending, \<open>Stop\<close> passes 15 to \<open>onStop\<close>, while the value seen
  most recently is 8.
\<close>

theorem Coalescer_onStop_fold_counterexample:
  "NewCoalescer 0 30 (+) [\<lparr>StopMode_c = StopFlushAndCallback, OnStop_c = True\<rparr>] = Inr example_coalescer
   \<and> \<not> hasAcc (fst (coalescer_run example_coalescer [CAdd 7, CAdd 8, CFlush]))
   \<and> callbacks (snd (coalescer_run example_coalescer [CAdd 7, CAdd 8, CFlush])) = [Emit 15]
   \<and> callbacks (snd (Coalescer_Stop (fst (coalescer_run example_coalescer [CAdd 7, CAdd 8, CFlush]))))
       = [OnStop 15]
   \<and> callbacks (snd (Coalescer_Stop (fst (coalescer_run example_coalescer [CAdd 7, CAdd 8, CFlush]))))
       \<noteq> [OnStop 8]"
  using NewCoalescer_example
  by (simp add: example_coalescer_def Coalescer_Add_def Coalescer_Flush_def Coalescer_Stop_def
      Let_def callbacks_def stopTimerLocked_def)

text \<open>
  Claim C9, amended.  With stop mode \<open>CallbackOnly\<close> or \<open>FlushAndCallback\<close> and \<open>onStop\<close> set,
  the first \<open>Stop\<close> of a debouncer invokes \<open>onStop\<close> with the field \<open>last\<close>, whether a value
  is pending or not, and with nothing pending it invokes nothing else.  After any history
  without \<open>Stop\<close> since the constructor, \<open>last\<close> is the value of the most recent \<open>Trigger\<close>,
  and the zero value if there was none.  Likewise the first \<open>Stop\<close> of a coalescer invokes
  \<open>onStop\<close> with the field \<open>acc\<close>, and nothing else when \<open>hasAcc\<close> is false: \<open>acc\<close> is the
  zero value in a coalescer from the constructor, and \<open>Flush\<close> and the window expiry leave
  the accumulator they emitted in place.  So after any history without \<open>Stop\<close> since the
  constructor the coalescer's \<open>onStop\<close> receives the left fold of the values of the most
  recent window, the one already emitted when \<open>hasAcc\<close> is false, and the zero value if
  \<open>Add\<close> was never called.
\<close>

theorem onStop_without_pending:
  "(\<not> stopped d
      \<and> (StopMode (opts d) = StopCallbackOnly \<or> StopMode (opts d) = StopFlushAndCallback)
      \<and> OnStop_set (opts d)
     \<longrightarrow> OnStop (last_v d) \<in> set (snd (Debouncer_Stop d))
         \<and> (\<not> pending d \<longrightarrow> callbacks (snd (Debouncer_Stop d)) = [OnStop (last_v d)]))
   \<and> (NewDebouncer zero o0 = Inr d0 \<and> DStop \<notin> set ops
      \<and> (StopMode o0 = StopCallbackOnly \<or> StopMode o0 = StopFlushAndCallback) \<and> OnStop_set o0
      \<and> \<not> pending (fst (debouncer_run d0 ops))
     \<longrightarrow> callbacks (snd (Debouncer_Stop (fst (debouncer_run d0 ops))))
           = [OnStop (last_triggered zero ops)])
   \<and> (\<not> stopped_c c
      \<and> (stopMode c = StopCallbackOnly \<or> stopMode c = StopFlushAndCallback) \<and> onStop c
     \<longrightarrow> OnStop (acc c) \<in> set (snd (Coalescer_Stop c))
         \<and> (\<not> hasAcc c \<longrightarrow> callbacks (snd (Coalescer_Stop c)) = [OnStop (acc c)]))
   \<and> (NewCoalescer zero' win f os = Inr c0
      \<and> (stopMode c0 = StopCallbackOnly \<or> stopMode c0 = StopFlushAndCallback) \<and> onStop c0
     \<longrightarrow> callbacks (snd (Coalescer_Stop c0)) = [OnStop zero'])
   \<and> acc (fst (Coalescer_Flush c)) = acc c \<and> acc (fst (loop_tick c)) = acc c
   \<and> (NewCoalescer zero' win f os = Inr c0 \<and> CStop \<notin> set cops
      \<and> (stopMode c0 = StopCallbackOnly \<or> stopMode c0 = StopFlushAndCallback) \<and> onStop c0
     \<longrightarrow> OnStop (window_fold zero' f (last_window False [] c0 cops))
           \<in> set (snd (Coalescer_Stop (fst (coalescer_run c0 cops))))
         \<and> (\<not> hasAcc (fst (coalescer_run c0 cops)) \<longrightarrow>
              callbacks (snd (Coalescer_Stop (fst (coalescer_run c0 cops))))
                = [OnStop (window_fold zero' f (last_window False [] c0 cops))])
         \<and> (CAdd ` UNIV \<inter> set cops = {} \<longrightarrow>
              window_fold zero' f (last_window False [] c0 cops) = zero'))"
proof -
  note 1 = Debouncer_Stop_not_pending
  have 2: "callbacks (snd (Debouncer_Stop (fst (debouncer_run d0 ops))))
           = [OnStop (last_triggered zero ops)]"
    if n: "NewDebouncer zero o0 = Inr d0" and s: "DStop \<notin> set ops"
      and m: "StopMode o0 = StopCallbackOnly \<or> StopMode o0 = StopFlushAndCallback"
      and o: "OnStop_set o0" and p: "\<not> pending (fst (debouncer_run d0 ops))"
  proof -
    from NewDebouncer_fields [OF n] have d0: "\<not> stopped d0" "last_v d0 = zero"
      "StopMode (opts d0) = StopMode o0" "OnStop_set (opts d0) = OnStop_set o0" by simp_all
    from debouncer_run_fields [OF d0(1) s] d0
    have r: "opts (fst (debouncer_run d0 ops)) = opts d0" "\<not> stopped (fst (debouncer_run d0 ops))"
      "last_v (fst (debouncer_run d0 ops)) = last_triggered zero ops" by simp_all
    from 1 [OF r(2) p] r d0 m o show ?thesis by simp
  qed
  have 3: "callbacks (snd (Coalescer_Stop c0)) = [OnStop zero']"
    if "NewCoalescer zero' win f os = Inr c0"
      "stopMode c0 = StopCallbackOnly \<or> stopMode c0 = StopFlushAndCallback" "onStop c0"
    using NewCoalescer_fields [OF that(1)] Coalescer_Stop_no_acc [of c0] that(2,3) by simp
  have 4: "OnStop (last_v d) \<in> set (snd (Debouncer_Stop d))"
    if "\<not> stopped d"
      "StopMode (opts d) = StopCallbackOnly \<or> StopMode (opts d) = StopFlushAndCallback"
      "OnStop_set (opts d)"
    using that by (auto simp: Debouncer_Stop_def Let_def)
  have 5: "OnStop (acc c) \<in> set (snd (Coalescer_Stop c))"
    if "\<not> stopped_c c"
      "stopMode c = StopCallbackOnly \<or> stopMode c = StopFlushAndCallback" "onStop c"
    using that by (auto simp: Coalescer_Stop_def Let_def)
  have 6: "window_fold zero' f (last_window False [] c0 cops) = zero'"
    if "CAdd ` UNIV \<inter> set cops = {}"
    using last_window_no_add [OF that, of False "[]" c0] by (simp add: window_fold_def)
  have 7: "NewCoalescer zero' win f os = Inr c0 \<and> CStop \<notin> set cops
      \<and> (stopMode c0 = StopCallbackOnly \<or> stopMode c0 = StopFlushAndCallback) \<and> onStop c0
     \<longrightarrow> OnStop (window_fold zero' f (last_window False [] c0 cops))
           \<in> set (snd (Coalescer_Stop (fst (coalescer_run c0 cops))))
         \<and> (\<not> hasAcc (fst (coalescer_run c0 cops)) \<longrightarrow>
              callbacks (snd (Coalescer_Stop (fst (coalescer_run c0 cops))))
                = [OnStop (window_fold zero' f (last_window False [] c0 cops))])
         \<and> (CAdd ` UNIV \<inter> set cops = {} \<longrightarrow>
              window_fold zero' f (last_window False [] c0 cops) = zero')"
    using coalescer_history_onStop [of zero' win f os c0 cops] 6 by blast
  have 8: "(\<not> stopped d
      \<and> (StopMode (opts d) = StopCallbackOnly \<or> StopMode (opts d) = StopFlushAndCallback)
      \<and> OnStop_set (opts d)
     \<longrightarrow> OnStop (last_v d) \<in> set (snd (Debouncer_Stop d))
         \<and> (\<not> pending d \<longrightarrow> callbacks (snd (Debouncer_Stop d)) = [OnStop (last_v d)]))
   \<and> (NewDebouncer zero o0 = Inr d0 \<and> DStop \<notin> set ops
      \<and> (StopMode o0 = StopCallbackOnly \<or> StopMode o0 = StopFlushAndCallback) \<and> OnStop_set o0
      \<and> \<not> pending (fst (debouncer_run d0 ops))
     \<longrightarrow> callbacks (snd (Debouncer_Stop (fst (debouncer_run d0 ops))))
           = [OnStop (last_triggered zero ops)])
   \<and> (\<not> stopped_c c
      \<and> (stopMode c = StopCallbackOnly \<or> stopMode c = StopFlushAndCallback) \<and> onStop c
     \<longrightarrow> OnStop (acc c) \<in> set (snd (Coalescer_Stop c))
         \<and> (\<not> hasAcc c \<longrightarrow> callbacks (snd (Coalescer_Stop c)) = [OnStop (acc c)]))
   \<and> (NewCoalescer zero' win f os = Inr c0
      \<and> (stopMode c0 = StopCallbackOnly \<or> stopMode c0 = StopFlushAndCallback) \<and> onStop c0
     \<longrightarrow> callbacks (snd (Coalescer_Stop c0)) = [OnStop zero'])
   \<and> acc (fst (Coalescer_Flush c)) = acc c \<and> acc (fst (loop_tick c)) = acc c"
    using 1 [of d] 2 3 4 5 Coalescer_Stop_no_acc [of c] Coalescer_emit_keeps_acc [of c]
    by blast
  from 7 8 show ?thesis by (intro conjI) (elim conjE; assumption)+
qed

theorem onStop_without_pending_witness:
  "NewDebouncer [] example_callback_opts = Inr example_callback_debouncer
   \<and> callbacks (snd (Debouncer_Stop example_callback_debouncer)) = [OnStop []]
   \<and> callbacks (snd (debouncer_run example_callback_debouncer [DTrigger ''P'', DTrigger ''Q'', DTimer]))
       = [Emit ''Q'']
   \<and> \<not> pending (fst (debouncer_run example_callback_debouncer [DTrigger ''P'', DTrigger ''Q'', DTimer]))
   \<and> callbacks (snd (Debouncer_Stop
        (fst (debouncer_run example_callback_debouncer [DTrigger ''P'', DTrigger ''Q'', DTimer]))))
       = [OnStop ''Q'']
   \<and> NewCoalescer 0 30 (+) [\<lparr>StopMode_c = StopFlushAndCallback, OnStop_c = True\<rparr>] = Inr example_coalescer
   \<and> callbacks (snd (Coalescer_Stop example_coalescer)) = [OnStop 0]
   \<and> callbacks (snd (Coalescer_Flush (Coalescer_Adds example_coalescer [7, 8]))) = [Emit 15]
   \<and> callbacks (snd (Coalescer_Stop (fst (Coalescer_Flush (Coalescer_Adds example_coalescer [7, 8])))))
       = [OnStop 15]
   \<and> CStop \<notin> set [CAdd (7 :: int), CAdd 8, CFlush]
   \<and> \<not> hasAcc (fst (coalescer_run example_coalescer [CAdd 7, CAdd 8, CFlush]))
   \<and> last_window False [] example_coalescer [CAdd 7, CAdd 8, CFlush] = [7, 8]
   \<and> window_fold 0 (+) [7, 8 :: int] = 15
   \<and> callbacks (snd (Coalescer_Stop (fst (coalescer_run example_coalescer [CAdd 7, CAdd 8, CFlush]))))
       = [OnStop 15]
   \<and> CAdd ` UNIV \<inter> set [CFlush, CTimer :: int coalescer_op] = {}
   \<and> \<not> hasAcc (fst (coalescer_run example_coalescer [CFlush, CTimer]))
   \<and> callbacks (snd (Coalescer_Stop (fst (coalescer_run example_coalescer [CFlush, CTimer]))))
       = [OnStop 0]"
proof -
  have n: "NewDebouncer [] example_callback_opts = Inr example_callback_debouncer"
    by (simp add: NewDebouncer_def example_callback_opts_def example_callback_debouncer_def)
  have o: "StopMode example_callback_opts = StopCallbackOnly" "OnStop_set example_callback_opts"
    by (simp_all add: example_callback_opts_def)
  let ?ops = "[DTrigger ''P'', DTrigger ''Q'', DTimer]"
  have e: "callbacks (snd (debouncer_run example_callback_debouncer ?ops)) = [Emit ''Q'']"
    and p: "\<not> pending (fst (debouncer_run example_callback_debouncer ?ops))"
    by (simp_all add: example_callback_debouncer_def example_callback_opts_def
        Debouncer_Trigger_def timerLoop_tick_def resetTimerLocked_def resetMaxLocked_def
        Let_def callbacks_def)
  have lt: "last_triggered [] ?ops = ''Q''" by simp
  have s: "DStop \<notin> set ?ops" "DStop \<notin> set ([] :: string debouncer_op list)" by simp_all
  have p0: "\<not> pending (fst (debouncer_run example_callback_debouncer []))"
    by (simp add: example_callback_debouncer_def)
  let ?c = "fst (Coalescer_Flush (Coalescer_Adds example_coalescer [7, 8]))"
  have c: "\<not> stopped_c ?c" "\<not> hasAcc ?c" "stopMode ?c = StopFlushAndCallback" "onStop ?c"
    "acc ?c = 15"
    and ce: "callbacks (snd (Coalescer_Flush (Coalescer_Adds example_coalescer [7, 8]))) = [Emit 15]"
    and c0: "stopMode example_coalescer = StopFlushAndCallback" "onStop example_coalescer"
    by (simp_all add: example_coalescer_def Coalescer_Add_def Coalescer_Flush_def Let_def
        callbacks_def)
  let ?h1 = "[CAdd (7 :: int), CAdd 8, CFlush]"
  let ?h2 = "[CFlush, CTimer :: int coalescer_op]"
  have h1: "CStop \<notin> set ?h1" "\<not> hasAcc (fst (coalescer_run example_coalescer ?h1))"
    "last_window False [] example_coalescer ?h1 = [7, 8]" "window_fold 0 (+) [7, 8 :: int] = 15"
    and h2: "CStop \<notin> set ?h2" "CAdd ` UNIV \<inter> set ?h2 = {}"
    "\<not> hasAcc (fst (coalescer_run example_coalescer ?h2))"
    by (auto simp: example_coalescer_def Coalescer_Add_def Coalescer_Flush_def loop_tick_def
        Let_def stopTimerLocked_def window_fold_def)
  from onStop_without_pending
      [of example_callback_debouncer "[]" example_callback_opts example_callback_debouncer
      ?ops ?c 0 30 "(+)" "[\<lparr>StopMode_c = StopFlushAndCallback, OnStop_c = True\<rparr>]" example_coalescer
      ?h1]
    onStop_without_pending
      [of example_callback_debouncer "[]" example_callback_opts example_callback_debouncer
      "[]" example_coalescer 0 30 "(+)" "[\<lparr>StopMode_c = StopFlushAndCallback, OnStop_c = True\<rparr>]"
      example_coalescer ?h2]
    n o e p lt s p0 c ce c0 NewCoalescer_example h1 h2
  show ?thesis
    by (simp del: debouncer_run.simps Coalescer_Adds.simps last_triggered.simps
          coalescer_run.simps last_window.simps)
       (simp add: example_callback_debouncer_def)
qed

text \<open>
  The methods that release the mutex before they call back: \<open>Stop\<close> of the debouncer
  and every method of the coalescer.
\<close>

lemma outside_lock_good_paths:
  "outside_lock False (snd (Debouncer_Stop d))
   \<and> outside_lock False (snd (Coalescer_Add c v))
   \<and> outside_lock False (snd (Coalescer_Flush c))
   \<and> outside_lock False (snd (Coalescer_Stop c))
   \<and> outside_lock False (snd (loop_tick c))"
  by (simp add: Debouncer_Stop_def Coalescer_Add_def Coalescer_Flush_def Coalescer_Stop_def
      loop_tick_def Let_def)

text \<open>
  Claim C3 (every callback runs outside the instance's lock).  The debouncer calls its
  trigger callback while it holds its mutex, in \<open>Trigger\<close> (leading emission), in \<open>Flush\<close>
  and in both timer loops: for the debouncer of the repository's test, each of these emits
  between \<open>Lock\<close> and \<open>Unlock\<close>.
\<close>

theorem Debouncer_callback_under_lock:
  "NewDebouncer [] example_debounce_opts = Inr example_debouncer
   \<and> snd (Debouncer_Trigger example_debouncer ''X'') = [Lock, Emit ''X'', Unlock]
   \<and> \<not> outside_lock False (snd (Debouncer_Trigger example_debouncer ''X''))
   \<and> snd (Debouncer_Flush (fst (Debouncer_Trigger example_debouncer ''X'')))
       = [Lock, Emit ''X'', Unlock]
   \<and> \<not> outside_lock False (snd (Debouncer_Flush (fst (Debouncer_Trigger example_debouncer ''X''))))
   \<and> snd (timerLoop_tick (fst (Debouncer_Trigger example_debouncer ''X'')))
       = [Lock, Emit ''X'', Unlock]
   \<and> \<not> outside_lock False (snd (timerLoop_tick (fst (Debouncer_Trigger example_debouncer ''X''))))
   \<and> snd (maxLoop_tick (fst (Debouncer_Trigger example_debouncer ''X'')))
       = [Lock, Emit ''X'', Unlock]"
  by (simp add: NewDebouncer_example)
     (simp add: example_debouncer_def example_debounce_opts_def Debouncer_Trigger_def
        Debouncer_Flush_def timerLoop_tick_def maxLoop_tick_def resetTimerLocked_def
        resetMaxLocked_def Let_def)

section \<open>ID adapters: properties\<close>

lemma json_parse_plain_examples:
  "json_parse_plain [CHR 0x22, CHR '' '', CHR 0x22] = Some (JString '' '')"
  "json_parse_plain [CHR 0x22, CHR 0x22] = Some (JString [])"
  "json_parse_plain ([CHR 0x22] @ '' abc '' @ [CHR 0x22]) = Some (JString '' abc '')"
  "json_parse_plain '' null'' = Some JNull"
  "json_parse_plain ''42'' = Some (JNumber ''42'')"
  "json_parse_plain ''-1'' = Some (JNumber ''-1'')"
  "json_parse_plain ''true'' = Some (JBool True)"
  by (simp_all add: json_parse_plain_def json_trim_def is_json_space_def plain_char_def
      is_int_literal_def is_digit_def Let_def)

lemma ParseUint_examples: "ParseUint ''42'' = Some 42" "ParseUint ''-1'' = None"
  by (simp_all add: ParseUint_def is_digit_def decimal_value_def)

lemma TrimSpace_ascii_examples:
  "TrimSpace_ascii '' '' = []" "TrimSpace_ascii '' abc '' = ''abc''" "TrimSpace_ascii [] = []"
  by (simp_all add: TrimSpace_ascii_def is_space_def)

text \<open>
  Claim C8, amended.  \<open>UnmarshalJSON\<close> maps JSON \<open>null\<close> to zero; a JSON string to zero
  when it is empty after \<open>strings.TrimSpace\<close>, and otherwise to the result of decoding the
  trimmed string with the default codec (the error of \<open>getCodec\<close> when the codec is unset,
  the wrapped decoding error when decoding fails); a JSON number to its value when its
  literal is an unsigned decimal integer below \<open>2^64\<close>, and to an error otherwise; and a
  boolean, an array, an object and a text that is not JSON to an error.  (For the text
  \<open>null\<close> itself nothing is asked of the library; for \<open>null\<close> with whitespace around it,
  that \<open>TrimSpace\<close> leaves the empty string empty.)
\<close>

theorem ID_UnmarshalJSON_shapes:
  "(b = ''null'' \<longrightarrow> ID_UnmarshalJSON parse trimSpace hmac defaultCodec b = Inr 0)
   \<and> (parse b = Some JNull \<and> trimSpace [] = [] \<longrightarrow>
        ID_UnmarshalJSON parse trimSpace hmac defaultCodec b = Inr 0)
   \<and> (b \<noteq> ''null'' \<and> parse b = Some (JString s) \<and> trimSpace s = [] \<longrightarrow>
        ID_UnmarshalJSON parse trimSpace hmac defaultCodec b = Inr 0)
   \<and> (b \<noteq> ''null'' \<and> parse b = Some (JString s) \<and> trimSpace s \<noteq> [] \<longrightarrow>
        ID_UnmarshalJSON parse trimSpace hmac defaultCodec b =
          (case defaultCodec of
             None \<Rightarrow> Inl ErrDefaultCodecNil
           | Some c \<Rightarrow>
               (case DecodeToUint64 hmac c (trimSpace s) of
                  Inl err \<Rightarrow> Inl (ErrInvalidEncodedID err)
                | Inr u \<Rightarrow> Inr u)))
   \<and> (b \<noteq> ''null'' \<and> parse b = Some (JNumber lit) \<longrightarrow>
        ID_UnmarshalJSON parse trimSpace hmac defaultCodec b =
          (case ParseUint lit of Some n \<Rightarrow> Inr n | None \<Rightarrow> Inl ErrNotStringOrNumber))
   \<and> (b \<noteq> ''null''
        \<and> (parse b = None \<or> parse b = Some (JBool t) \<or> parse b = Some JArray
            \<or> parse b = Some JObject) \<longrightarrow>
        ID_UnmarshalJSON parse trimSpace hmac defaultCodec b = Inl ErrNotStringOrNumber)"
proof -
  let ?R = "ID_UnmarshalJSON parse trimSpace hmac defaultCodec b"
  have 1: "?R = Inr 0" if "b = ''null''"
    using that by (simp add: ID_UnmarshalJSON_def)
  have 2: "?R = Inr 0" if "parse b = Some JNull" "trimSpace [] = []"
    using that by (simp add: ID_UnmarshalJSON_def json_Unmarshal_string_def)
  have 3: "?R = Inr 0" if "b \<noteq> ''null''" "parse b = Some (JString s)" "trimSpace s = []"
    using that by (simp add: ID_UnmarshalJSON_def json_Unmarshal_string_def)
  have 4: "?R = (case defaultCodec of
             None \<Rightarrow> Inl ErrDefaultCodecNil
           | Some c \<Rightarrow>
               (case DecodeToUint64 hmac c (trimSpace s) of
                  Inl err \<Rightarrow> Inl (ErrInvalidEncodedID err)
                | Inr u \<Rightarrow> Inr u))"
    if "b \<noteq> ''null''" "parse b = Some (JString s)" "trimSpace s \<noteq> []"
    using that
    by (cases defaultCodec)
       (simp_all add: ID_UnmarshalJSON_def json_Unmarshal_string_def getCodec_def Let_def)
  have 5: "?R = (case ParseUint lit of Some n \<Rightarrow> Inr n | None \<Rightarrow> Inl ErrNotStringOrNumber)"
    if "b \<noteq> ''null''" "parse b = Some (JNumber lit)"
    using that
    by (simp add: ID_UnmarshalJSON_def json_Unmarshal_string_def json_Unmarshal_uint_def)
  have 6: "?R = Inl ErrNotStringOrNumber"
    if "b \<noteq> ''null''"
      "parse b = None \<or> parse b = Some (JBool t) \<or> parse b = Some JArray \<or> parse b = Some JObject"
    using that
    by (auto simp: ID_UnmarshalJSON_def json_Unmarshal_string_def json_Unmarshal_uint_def)
  from 1 2 3 4 5 6 show ?thesis by blast
qed

theorem ID_UnmarshalJSON_shapes_witness:
  "ID_UnmarshalJSON json_parse_plain TrimSpace_ascii (\<lambda>_ _. []) None ''null'' = Inr 0
   \<and> ID_UnmarshalJSON json_parse_plain TrimSpace_ascii (\<lambda>_ _. []) None '' null'' = Inr 0
   \<and> ID_UnmarshalJSON json_parse_plain TrimSpace_ascii (\<lambda>_ _. []) None [CHR 0x22, CHR 0x22] = Inr 0
   \<and> ID_UnmarshalJSON json_parse_plain TrimSpace_ascii (\<lambda>_ _. []) None
        ([CHR 0x22] @ '' abc '' @ [CHR 0x22]) = Inl ErrDefaultCodecNil
   \<and> ID_UnmarshalJSON json_parse_plain TrimSpace_ascii (\<lambda>_ _. []) (Some example_codec)
        ([CHR 0x22] @ '' abc '' @ [CHR 0x22]) = Inl (ErrInvalidEncodedID ErrInvalidLength)
   \<and> ID_UnmarshalJSON json_parse_plain TrimSpace_ascii (\<lambda>_ _. []) None ''42'' = Inr 42
   \<and> ID_UnmarshalJSON json_parse_plain TrimSpace_ascii (\<lambda>_ _. []) None ''true''
       = Inl ErrNotStringOrNumber"
proof -
  have d: "DecodeToUint64 (\<lambda>_ _. []) example_codec ''abc'' = Inl ErrInvalidLength"
    by (simp add: DecodeToUint64_def DecodeToUint64WithKind_def decodeInternal_def
        example_codec_def)
  note p = json_parse_plain_examples and t = TrimSpace_ascii_examples and u = ParseUint_examples
  note c = ID_UnmarshalJSON_shapes [where parse = json_parse_plain
      and trimSpace = TrimSpace_ascii and hmac = "\<lambda>_ _. []"]
  have 1: "ID_UnmarshalJSON json_parse_plain TrimSpace_ascii (\<lambda>_ _. []) None ''null'' = Inr 0"
    using c [where b = "''null''" and defaultCodec = None] by simp
  have 2: "ID_UnmarshalJSON json_parse_plain TrimSpace_ascii (\<lambda>_ _. []) None '' null'' = Inr 0"
    using c [where b = "'' null''" and defaultCodec = None] p t by simp
  have 3: "ID_UnmarshalJSON json_parse_plain TrimSpace_ascii (\<lambda>_ _. []) None
      [CHR 0x22, CHR 0x22] = Inr 0"
    using c [where b = "[CHR 0x22, CHR 0x22]" and defaultCodec = None and s = "[]"] p t
    by simp
  have 4: "ID_UnmarshalJSON json_parse_plain TrimSpace_ascii (\<lambda>_ _. []) None
      ([CHR 0x22] @ '' abc '' @ [CHR 0x22]) = Inl ErrDefaultCodecNil"
    using c [where b = "[CHR 0x22] @ '' abc '' @ [CHR 0x22]" and defaultCodec = None
        and s = "'' abc ''"] p t
    by simp
  have 5: "ID_UnmarshalJSON json_parse_plain TrimSpace_ascii (\<lambda>_ _. []) (Some example_codec)
      ([CHR 0x22] @ '' abc '' @ [CHR 0x22]) = Inl (ErrInvalidEncodedID ErrInvalidLength)"
    using c [where b = "[CHR 0x22] @ '' abc '' @ [CHR 0x22]" and defaultCodec = "Some example_codec"
        and s = "'' abc ''"] p t d
    by simp
  have 6: "ID_UnmarshalJSON json_parse_plain TrimSpace_ascii (\<lambda>_ _. []) None ''42'' = Inr 42"
    using c [where b = "''42''" and defaultCodec = None and lit = "''42''"] p u by simp
  have 7: "ID_UnmarshalJSON json_parse_plain TrimSpace_ascii (\<lambda>_ _. []) None ''true''
       = Inl ErrNotStringOrNumber"
    using c [where b = "''true''" and defaultCodec = None and t = True] p by simp
  from 1 2 3 4 5 6 7 show ?thesis by blast
qed

text \<open>
  Claim C8 says that a non-empty JSON string is decoded with the default codec, with an
  error when the codec is unset, and that a JSON number gives its value.  The JSON string
  of one space is not empty, and with the codec unset \<open>UnmarshalJSON\<close> accepts it as zero:
  the string is trimmed first.  The JSON number \<open>-1\<close> is rejected with the error of the
  other shapes.
\<close>

theorem ID_UnmarshalJSON_blank_string_counterexample:
  "json_parse_plain [CHR 0x22, CHR '' '', CHR 0x22] = Some (JString '' '') \<and> '' '' \<noteq> []
   \<and> ID_UnmarshalJSON json_parse_plain TrimSpace_ascii (\<lambda>_ _. []) None
        [CHR 0x22, CHR '' '', CHR 0x22] = Inr 0
   \<and> json_parse_plain ''-1'' = Some (JNumber ''-1'')
   \<and> ID_UnmarshalJSON json_parse_plain TrimSpace_ascii (\<lambda>_ _. []) None ''-1''
       = Inl ErrNotStringOrNumber"
  using json_parse_plain_examples TrimSpace_ascii_examples ParseUint_examples
  by (simp add: ID_UnmarshalJSON_def json_Unmarshal_string_def json_Unmarshal_uint_def
      getCodec_def Let_def)

end
